theory Spec2Isabelle
  imports Main "HOL-Library.Word" "HOL-Library.Signed_Division"
begin

unbundle bit_operations_syntax

section \<open>The delta encoder of diff-delta.c\<close>

text \<open>
  Buffers are lists of bytes; a pointer into a buffer is the offset from its start. The
  sizes \<open>from_size\<close>, \<open>to_size\<close> and \<open>max_size\<close> (\<open>unsigned long\<close>) are natural
  numbers, the first two the lengths of the lists. The C variables of type
  \<open>unsigned int\<close> (\<open>outpos\<close>, \<open>outsize\<close>, \<open>inscnt\<close>, \<open>csize\<close>, \<open>msize\<close>,
  \<open>moff\<close>) are natural numbers; the masks and shifts of the source are the bit
  operations on them. Where the source converts a value to 32 bits, the conversion is
  written out: the reference size becomes the \<open>int bufsize\<close> of \<open>delta_prepare\<close>
  (\<open>to_int\<close>, the low 32 bits read in two's complement), \<open>bufsize / BLK_SIZE\<close> is the
  division of C, which rounds towards zero (\<open>sdiv\<close>), and \<open>csize\<close>, the argument of
  \<open>hashbits\<close>, the length given to \<open>adler32\<close> and the new \<open>outsize\<close> are reduced
  modulo \<open>2 ^ 32\<close>. The offset of a block record is below \<open>2 ^ 31\<close>, so \<open>moff\<close>
  carries it unchanged. A run in which the behaviour of the source is undefined ends with
  an error of its own: \<open>UndefinedShift\<close> for \<open>1 << fphbits\<close> with 31 bits or more,
  \<open>StoreOutOfBounds\<close> for a store outside the output buffer, \<open>DeltaTruncated\<close> when
  \<open>realloc\<close> is given a size below the number of bytes already written.
  \<open>EmptyInput\<close> and \<open>DeltaExceedsCap\<close> are the two ways in which the source returns
  \<open>NULL\<close>. \<open>malloc\<close> and \<open>realloc\<close> are taken to succeed: the arena allocator
  (\<open>cha_init\<close>, \<open>cha_alloc\<close>, \<open>cha_free\<close>) only provides the storage of the block
  records and has no counterpart here.
\<close>

type_synonym byte = "8 word"
type_synonym u32 = "32 word"

datatype error = EmptyInput | DeltaExceedsCap | StoreOutOfBounds | UndefinedShift | DeltaTruncated

subsection \<open>Conversions to 32 bits\<close>

definition to_int :: "nat \<Rightarrow> int" where
  "to_int n =
     (if n mod 2 ^ 32 < 2 ^ 31 then int (n mod 2 ^ 32) else int (n mod 2 ^ 32) - 2 ^ 32)"

definition to_uint :: "int \<Rightarrow> nat" where
  "to_uint i = nat (i mod 2 ^ 32)"

subsection \<open>Constants and the hash\<close>

definition BLK_SIZE :: nat where
  "BLK_SIZE = 16"

definition GR_PRIME :: u32 where
  "GR_PRIME = 0x9e370001"

definition HASH :: "u32 \<Rightarrow> nat \<Rightarrow> nat" where
  "HASH v b = unat (drop_bit (32 - b) (v * GR_PRIME))"

text \<open>
  Modelled from the spec: \<open>adler32\<close> is zlib's function, which is not part of the
  repository; section 6 of the specification fixes it as the Adler-32 checksum of RFC 1950
  with an explicit seed: two sums modulo 65521, the low half of the seed starting the
  first and the high half the second, returned as \<open>s2 * 65536 + s1\<close>.
\<close>

fun adler_sums :: "nat \<Rightarrow> nat \<Rightarrow> byte list \<Rightarrow> nat \<times> nat" where
  "adler_sums s1 s2 [] = (s1, s2)"
| "adler_sums s1 s2 (c # cs) =
     (let s1' = (s1 + unat c) mod 65521 in adler_sums s1' ((s2 + s1') mod 65521) cs)"

definition adler32 :: "u32 \<Rightarrow> byte list \<Rightarrow> u32" where
  "adler32 adler buf =
     (case adler_sums (unat (adler AND 0xffff)) (unat (drop_bit 16 adler AND 0xffff)) buf of
        (s1, s2) \<Rightarrow> of_nat (s2 * 65536 + s1))"

text \<open>\<open>hashbits\<close>: the loop doubles \<open>val\<close> in 32 bits until it reaches \<open>size\<close>.\<close>

function hashbits_loop :: "nat \<Rightarrow> nat \<Rightarrow> nat \<Rightarrow> nat" where
  "hashbits_loop sz val bits =
     (if val < sz \<and> bits < 32 then hashbits_loop sz ((val * 2) mod 2 ^ 32) (bits + 1)
      else bits)"
  by pat_completeness auto
termination
  by (relation "measure (\<lambda>(sz, val, bits). 32 - bits)") auto

definition hashbits :: "nat \<Rightarrow> nat" where
  "hashbits sz = (let bits = hashbits_loop sz 1 0 in if bits \<noteq> 0 then bits else 1)"

subsection \<open>The block index\<close>

record bdrecord =
  fp :: u32
  ptr :: nat

record bdfile =
  fphbits :: nat
  fphash :: "bdrecord list list"

text \<open>
  The loop of \<open>delta_prepare\<close> (lines 125 to 137): \<open>pos\<close> is \<open>data - buf\<close>, an
  integer because the loop ends when \<open>data\<close> has stepped below \<open>buf\<close>, and
  \<open>top - data\<close> is \<open>bufsize - pos\<close>. \<open>MIN(BLK_SIZE, top - data)\<close> is converted
  to the \<open>unsigned int\<close> length of \<open>adler32\<close>. Each record is put in front of its
  bucket's chain.
\<close>

function prepare_loop :: "byte list \<Rightarrow> int \<Rightarrow> nat \<Rightarrow> int \<Rightarrow> bdrecord list list \<Rightarrow> bdrecord list list" where
  "prepare_loop buf bufsize hbits pos hash =
     (if 0 \<le> pos then
        let brec = \<lparr>fp = adler32 0
                      (take (to_uint (if int BLK_SIZE < bufsize - pos then int BLK_SIZE
                                      else bufsize - pos))
                         (drop (nat pos) buf)),
                    ptr = nat pos\<rparr>;
            i = HASH (fp brec) hbits
        in prepare_loop buf bufsize hbits (pos - int BLK_SIZE) (hash[i := brec # hash ! i])
      else hash)"
  by pat_completeness auto
termination
  by (relation "measure (\<lambda>(buf, bufsize, hbits, pos, hash). nat (pos + 1))")
    (auto simp: BLK_SIZE_def)

text \<open>
  \<open>delta_prepare\<close> as \<open>diff_delta\<close> calls it (line 171), with the size of the buffer
  for \<open>bufsize\<close>: the size is converted to \<open>int\<close>, and \<open>bufsize / BLK_SIZE + 1\<close>
  to the \<open>unsigned int\<close> parameter of \<open>hashbits\<close>. The shift \<open>1 << fphbits\<close> of line
  112 is undefined for 31 bits or more, which \<open>hashbits\<close> returns when \<open>bufsize\<close> is
  \<open>-32\<close> or less.
\<close>

definition delta_prepare :: "byte list \<Rightarrow> error + bdfile" where
  "delta_prepare buf =
     (let bufsize = to_int (length buf);
          hbits = hashbits (to_uint (bufsize sdiv int BLK_SIZE + 1))
      in if 31 \<le> hbits then Inl UndefinedShift
         else
           let hsize = 2 ^ hbits;
               hash = replicate hsize [];
               top = bufsize;
               pos = (bufsize sdiv int BLK_SIZE) * int BLK_SIZE;
               pos = (if pos = top then pos - int BLK_SIZE else pos)
           in Inr \<lparr>fphbits = hbits, fphash = prepare_loop buf bufsize hbits pos hash\<rparr>)"

subsection \<open>Opcode sizes\<close>

definition COPYOP_SIZE :: "nat \<Rightarrow> nat \<Rightarrow> nat" where
  "COPYOP_SIZE off sz =
     of_bool (off AND 0xff \<noteq> 0) + of_bool (off AND 0xff00 \<noteq> 0) +
     of_bool (off AND 0xff0000 \<noteq> 0) + of_bool (off AND 0xff000000 \<noteq> 0) +
     of_bool (sz AND 0xff \<noteq> 0) + of_bool (sz AND 0xff00 \<noteq> 0) + 1"

definition MAX_OP_SIZE :: nat where
  "MAX_OP_SIZE = COPYOP_SIZE 0xffffffff 0xffffffff"

subsection \<open>Searching the index\<close>

text \<open>
  The inner \<open>for\<close> loop of lines 218 to 220 compares the reference at the record
  with the target while \<open>csize\<close> lasts; its result is \<open>ptr1 - brec->ptr\<close>, the
  number of bytes that matched.
\<close>

fun match_run :: "nat \<Rightarrow> byte list \<Rightarrow> byte list \<Rightarrow> nat" where
  "match_run csize (r # ptr1) (t # ptr2) =
     (if csize \<noteq> 0 \<and> r = t then 1 + match_run (csize - 1) ptr1 ptr2 else 0)"
| "match_run csize ptr1 ptr2 = 0"

text \<open>
  The walk along one chain (lines 213 to 232), with the pair \<open>(moff, msize)\<close> as
  its state; \<open>d\<close> is \<open>data - to_buf\<close> and \<open>f\<close> the fingerprint of the target block.
\<close>

fun walk_chain :: "byte list \<Rightarrow> byte list \<Rightarrow> nat \<Rightarrow> u32 \<Rightarrow> bdrecord list \<Rightarrow> nat \<times> nat \<Rightarrow> nat \<times> nat" where
  "walk_chain R T d f [] (mo, ms) = (mo, ms)"
| "walk_chain R T d f (brec # chain) (mo, ms) =
     (if fp brec = f then
        let csize = to_uint (int (length R) - int (ptr brec));
            csize = (if csize > length T - d then length T - d else csize);
            csize = match_run csize (drop (ptr brec) R) (drop d T)
        in if csize > ms then
             (if csize \<ge> 0x10000 then (ptr brec, 0x10000)
              else walk_chain R T d f chain (ptr brec, csize))
           else walk_chain R T d f chain (mo, ms)
      else walk_chain R T d f chain (mo, ms))"

definition find_match :: "byte list \<Rightarrow> byte list \<Rightarrow> bdfile \<Rightarrow> nat \<Rightarrow> nat \<Rightarrow> nat \<times> nat" where
  "find_match R T bdf d mo =
     (let f = adler32 0 (take (min (length T - d) BLK_SIZE) (drop d T));
          i = HASH f (fphbits bdf)
      in walk_chain R T d f (fphash bdf ! i) (mo, 0))"

subsection \<open>Writing the delta\<close>

text \<open>
  The output buffer is the list of the bytes \<open>out[0..outpos)\<close>, so \<open>outpos\<close> is its
  length. \<open>put_size\<close> is the header code of lines 190 to 205 for one size.
\<close>

function put_size_loop :: "byte list \<Rightarrow> nat \<Rightarrow> byte list" where
  "put_size_loop outb sz =
     (if sz \<noteq> 0 then
        put_size_loop (outb[length outb - 1 := outb ! (length outb - 1) OR 0x80] @ [of_nat sz])
          (drop_bit 7 sz)
      else outb)"
  by pat_completeness auto
termination
  by (relation "measure (\<lambda>(outb, sz). sz)") (auto simp: drop_bit_eq_div)

definition put_size :: "byte list \<Rightarrow> nat \<Rightarrow> byte list" where
  "put_size outb sz = put_size_loop (outb @ [of_nat sz]) (drop_bit 7 sz)"

text \<open>
  One line of the COPY branch: \<open>if (v & 0xff) { out[outpos++] = v; i |= flag; }\<close>,
  on the pair of the buffer and \<open>i\<close>.
\<close>

definition put_field :: "byte list \<times> nat \<Rightarrow> nat \<Rightarrow> nat \<Rightarrow> byte list \<times> nat" where
  "put_field oi v flag = (if v AND 0xff \<noteq> 0 then (fst oi @ [of_nat v], snd oi OR flag) else oi)"

text \<open>
  Lines 250 to 265: the opcode byte is reserved at \<open>orig\<close>, the non-zero bytes of the
  offset and of the size follow, and the opcode byte is stored last. The result is the
  buffer and the shifted \<open>moff\<close>.
\<close>

definition emit_copy :: "byte list \<Rightarrow> nat \<Rightarrow> nat \<Rightarrow> byte list \<times> nat" where
  "emit_copy outb moff0 msize0 =
     (let orig = length outb;
          oi = (outb @ [0], 0x80);
          oi = put_field oi moff0 0x01;
          moff1 = drop_bit 8 moff0;
          oi = put_field oi moff1 0x02;
          moff2 = drop_bit 8 moff1;
          oi = put_field oi moff2 0x04;
          moff3 = drop_bit 8 moff2;
          oi = put_field oi moff3 0x08;
          oi = put_field oi msize0 0x10;
          msize1 = drop_bit 8 msize0;
          oi = put_field oi msize1 0x20
      in ((fst oi)[orig := of_nat (snd oi)], moff3))"

record enc_state =
  out :: "byte list"
  outsize :: nat
  inscnt :: nat
  moff :: nat
  data :: nat

text \<open>
  One iteration of the main loop up to the growth check (lines 210 to 266). The byte
  reserved for the length of an INSERT run is not initialised by the source; here it is 0
  until it is filled in.
\<close>

definition enc_step :: "byte list \<Rightarrow> byte list \<Rightarrow> bdfile \<Rightarrow> enc_state \<Rightarrow> enc_state" where
  "enc_step R T bdf st =
     (case find_match R T bdf (data st) (moff st) of (mo, msize) \<Rightarrow>
        if msize = 0 \<or> msize < COPYOP_SIZE mo msize then
          let o1 = (if inscnt st = 0 then out st @ [0] else out st);
              o2 = o1 @ [T ! data st];
              ic = inscnt st + 1
          in if ic = 0x7f
             then st\<lparr>out := o2[length o2 - ic - 1 := of_nat ic], inscnt := 0, moff := mo,
                      data := data st + 1\<rparr>
             else st\<lparr>out := o2, inscnt := ic, moff := mo, data := data st + 1\<rparr>
        else
          let o1 = (if inscnt st \<noteq> 0
                    then (out st)[length (out st) - inscnt st - 1 := of_nat (inscnt st)]
                    else out st)
          in case emit_copy o1 mo msize of (o2, mo') \<Rightarrow>
               st\<lparr>out := o2, inscnt := 0, moff := mo', data := data st + msize\<rparr>)"

text \<open>
  The growth check at the end of an iteration (lines 268 to 282). \<open>outsize - MAX_OP_SIZE\<close>
  and \<open>outsize * 3 / 2\<close> are 32-bit computations, and the sum
  \<open>max_size + MAX_OP_SIZE + 1\<close> is converted to 32 bits. When the new \<open>outsize\<close> is
  below \<open>outpos\<close>, \<open>realloc\<close> keeps only the first \<open>outsize\<close> bytes of the delta:
  the bytes written so far are no longer all in the buffer, and the run ends with
  \<open>DeltaTruncated\<close>.
\<close>

definition grow :: "nat \<Rightarrow> enc_state \<Rightarrow> error + enc_state" where
  "grow max_size st =
     (if length (out st) \<ge> (outsize st + 2 ^ 32 - MAX_OP_SIZE) mod 2 ^ 32 then
        let osz = (outsize st * 3 mod 2 ^ 32) div 2;
            osz = (if max_size \<noteq> 0 \<and> osz \<ge> max_size
                   then (max_size + MAX_OP_SIZE + 1) mod 2 ^ 32 else osz)
        in if max_size \<noteq> 0 \<and> length (out st) > max_size then Inl DeltaExceedsCap
           else if osz < length (out st) then Inl DeltaTruncated
           else Inr (st\<lparr>outsize := osz\<rparr>)
      else Inr st)"

lemma grow_data: "grow max_size st = Inr st' \<Longrightarrow> data st' = data st"
  by (auto simp: grow_def Let_def split: if_splits)

lemma enc_step_data: "data st < data (enc_step R T bdf st)"
  by (auto simp: enc_step_def Let_def split: prod.splits)

text \<open>
  The main loop (lines 209 to 283). The stores of one iteration go to indices below the
  new \<open>outpos\<close>, the last of them to \<open>outpos - 1\<close> (or, in the COPY branch, the others
  to \<open>outpos - 1\<close> before the opcode byte is filled in): a store of the iteration falls
  outside the allocated \<open>outsize\<close> bytes exactly when the new \<open>outpos\<close> exceeds
  \<open>outsize\<close>, and the model stops there with \<open>StoreOutOfBounds\<close>.
\<close>

function encode_loop :: "byte list \<Rightarrow> byte list \<Rightarrow> bdfile \<Rightarrow> nat \<Rightarrow> enc_state \<Rightarrow> error + enc_state" where
  "encode_loop R T bdf max_size st =
     (if data st < length T then
        let st1 = enc_step R T bdf st
        in if length (out st1) > outsize st1 then Inl StoreOutOfBounds
           else (case grow max_size st1 of
                   Inl e \<Rightarrow> Inl e
                 | Inr st2 \<Rightarrow> encode_loop R T bdf max_size st2)
      else Inr st)"
  by pat_completeness auto
termination
proof (relation "measure (\<lambda>(R, T, bdf, max_size, st). length T - data st)")
  show "wf (measure (\<lambda>(R, T, bdf, max_size, st). length T - data st))"
    by simp
next
  fix R T :: "byte list" and bdf max_size st st1 st2
  assume "data st < length T" and "st1 = enc_step R T bdf st"
    and "grow max_size st1 = Inr st2"
  then show "((R, T, bdf, max_size, st2), (R, T, bdf, max_size, st))
      \<in> measure (\<lambda>(R, T, bdf, max_size, st). length T - data st)"
    using enc_step_data [of st R T bdf] grow_data [of max_size st1 st2] by simp
qed

text \<open>
  \<open>diff_delta\<close>: the result is the error, or the delta \<open>out[0..delta_size)\<close>.
\<close>

definition diff_delta :: "byte list \<Rightarrow> byte list \<Rightarrow> nat \<Rightarrow> error + byte list" where
  "diff_delta from_buf to_buf max_size =
     (if from_buf = [] \<or> to_buf = [] then Inl EmptyInput
      else
        (case delta_prepare from_buf of
           Inl e \<Rightarrow> Inl e
         | Inr bdf \<Rightarrow>
             let osz = 8192;
                 osz = (if max_size \<noteq> 0 \<and> osz \<ge> max_size
                        then (max_size + MAX_OP_SIZE + 1) mod 2 ^ 32 else osz);
                 hdr = put_size (put_size [] (length from_buf)) (length to_buf)
             in if length hdr > osz then Inl StoreOutOfBounds
                else (case encode_loop from_buf to_buf bdf max_size
                             \<lparr>out = hdr, outsize = osz, inscnt = 0, moff = 0, data = 0\<rparr> of
                        Inl e \<Rightarrow> Inl e
                      | Inr st \<Rightarrow>
                          Inr (if inscnt st \<noteq> 0
                               then (out st)[length (out st) - inscnt st - 1 := of_nat (inscnt st)]
                               else out st))))"

declare hashbits_loop.simps [simp del] prepare_loop.simps [simp del]
  put_size_loop.simps [simp del] encode_loop.simps [simp del]

section \<open>The wire format\<close>

text \<open>
  Modelled from the spec: the applier of a delta is not part of the source file; section 6
  of the specification gives the wire format it reads. A delta is the reference size and
  the target size, each as a little-endian base-128 integer whose bytes carry 7 bits and
  the continuation flag in bit 7, and then a sequence of opcodes. A byte \<open>n\<close> from 1 to
  127 starts an INSERT of the \<open>n\<close> bytes that follow it; a byte with bit 7 set starts a
  COPY, whose bits 0 to 3 say which of the four offset bytes follow and whose bits 4 and 5
  say which of the two size bytes follow, least significant first, an absent byte being
  zero and the size zero standing for \<open>0x10000\<close>; the byte 0 is invalid.
\<close>

datatype opcode = INSERT "byte list" | COPY nat nat

fun read_size :: "byte list \<Rightarrow> (nat \<times> byte list) option" where
  "read_size [] = None"
| "read_size (b # bs) =
     (if bit b 7
      then (case read_size bs of
              None \<Rightarrow> None
            | Some (v, rest) \<Rightarrow> Some (unat (b AND 0x7f) + 128 * v, rest))
      else Some (unat b, bs))"

definition read_field :: "bool \<Rightarrow> byte list \<Rightarrow> (nat \<times> byte list) option" where
  "read_field present bs =
     (if present then (case bs of [] \<Rightarrow> None | b # rest \<Rightarrow> Some (unat b, rest))
      else Some (0, bs))"

definition read_copy :: "byte \<Rightarrow> byte list \<Rightarrow> (opcode \<times> byte list) option" where
  "read_copy c bs0 =
     Option.bind (read_field (bit c 0) bs0) (\<lambda>(o0, bs1).
     Option.bind (read_field (bit c 1) bs1) (\<lambda>(o1, bs2).
     Option.bind (read_field (bit c 2) bs2) (\<lambda>(o2, bs3).
     Option.bind (read_field (bit c 3) bs3) (\<lambda>(o3, bs4).
     Option.bind (read_field (bit c 4) bs4) (\<lambda>(s0, bs5).
     Option.bind (read_field (bit c 5) bs5) (\<lambda>(s1, bs6).
       let off = o0 + 256 * o1 + 65536 * o2 + 16777216 * o3;
           sz = s0 + 256 * s1
       in Some (COPY off (if sz = 0 then 0x10000 else sz), bs6)))))))"

definition read_op :: "byte list \<Rightarrow> (opcode \<times> byte list) option" where
  "read_op bs =
     (case bs of
        [] \<Rightarrow> None
      | c # rest \<Rightarrow>
          if bit c 7 then read_copy c rest
          else if c = 0 then None
          else if unat c \<le> length rest
               then Some (INSERT (take (unat c) rest), drop (unat c) rest)
               else None)"

lemma read_field_length: "read_field present bs = Some (v, rest) \<Longrightarrow> length rest \<le> length bs"
  by (auto simp: read_field_def split: if_splits list.splits)

lemma read_copy_length: "read_copy c bs = Some (op, rest) \<Longrightarrow> length rest \<le> length bs"
  by (auto simp: read_copy_def Let_def bind_eq_Some_conv dest!: read_field_length)

lemma read_op_length: "read_op bs = Some (op, rest) \<Longrightarrow> length rest < length bs"
  by (auto simp: read_op_def less_Suc_eq_le split: list.splits if_splits dest: read_copy_length)

function parse_ops :: "byte list \<Rightarrow> opcode list option" where
  "parse_ops bs =
     (if bs = [] then Some []
      else (case read_op bs of
              None \<Rightarrow> None
            | Some (op, rest) \<Rightarrow>
                (case parse_ops rest of None \<Rightarrow> None | Some ops \<Rightarrow> Some (op # ops))))"
  by pat_completeness auto
termination
  by (relation "measure length") (auto dest: read_op_length)

declare parse_ops.simps [simp del]

text \<open>
  Applying the opcodes to the reference: an INSERT appends its literal bytes, a COPY
  appends \<open>size\<close> bytes of the reference from \<open>offset\<close> and is refused when it reaches
  outside the reference.
\<close>

fun apply_ops :: "byte list \<Rightarrow> opcode list \<Rightarrow> byte list option" where
  "apply_ops R [] = Some []"
| "apply_ops R (INSERT lits # ops) = map_option ((@) lits) (apply_ops R ops)"
| "apply_ops R (COPY off sz # ops) =
     (if off + sz \<le> length R
      then map_option ((@) (take sz (drop off R))) (apply_ops R ops)
      else None)"

text \<open>
  The applier reads the two sizes, refuses a delta made for a reference of another size,
  applies every opcode up to the end of the delta and refuses a result whose length is not
  the target size of the header.
\<close>

definition patch_delta :: "byte list \<Rightarrow> byte list \<Rightarrow> byte list option" where
  "patch_delta R delta =
     (case read_size delta of
        None \<Rightarrow> None
      | Some (rsz, d1) \<Rightarrow>
          (case read_size d1 of
             None \<Rightarrow> None
           | Some (tsz, d2) \<Rightarrow>
               if rsz \<noteq> length R then None
               else (case parse_ops d2 of
                       None \<Rightarrow> None
                     | Some ops \<Rightarrow>
                         (case apply_ops R ops of
                            None \<Rightarrow> None
                          | Some t \<Rightarrow> if length t = tsz then Some t else None))))"

section \<open>Notions for the proofs\<close>

text \<open>
  The bytes of one field of a COPY opcode and its flag, as \<open>put_field\<close> adds them; the
  bytes the encoder writes for an opcode; the opcodes a well-formed delta for the
  reference \<open>R\<close> holds; and what an opcode contributes to the target.
\<close>

definition flg :: "nat \<Rightarrow> nat \<Rightarrow> nat" where
  "flg v f = (if v mod 256 \<noteq> 0 then f else 0)"

definition fld :: "nat \<Rightarrow> byte list" where
  "fld v = (if v mod 256 \<noteq> 0 then [of_nat v] else [])"

fun op_bytes :: "opcode \<Rightarrow> byte list" where
  "op_bytes (INSERT lits) = of_nat (length lits) # lits"
| "op_bytes (COPY off sz) = fst (emit_copy [] off sz)"

fun valid_op :: "byte list \<Rightarrow> opcode \<Rightarrow> bool" where
  "valid_op R (INSERT lits) = (1 \<le> length lits \<and> length lits \<le> 127)"
| "valid_op R (COPY off sz) = (1 \<le> sz \<and> sz \<le> 0x10000 \<and> off + sz \<le> length R)"

fun op_result :: "byte list \<Rightarrow> opcode \<Rightarrow> byte list" where
  "op_result R (INSERT lits) = lits"
| "op_result R (COPY off sz) = take sz (drop off R)"

function size_tail :: "byte \<Rightarrow> nat \<Rightarrow> byte list" where
  "size_tail b m = (if m \<noteq> 0 then (b OR 0x80) # size_tail (of_nat m) (m div 128) else [b])"
  by pat_completeness auto

termination
  by (relation "measure snd") auto

declare size_tail.simps [simp del]

definition good_match :: "byte list \<Rightarrow> byte list \<Rightarrow> nat \<Rightarrow> nat \<times> nat \<Rightarrow> bool" where
  "good_match R T d m = (case m of (mo, ms) \<Rightarrow>
     ms = 0 \<or> (ms \<le> 0x10000 \<and> mo + ms \<le> length R \<and> d + ms \<le> length T
       \<and> take ms (drop mo R) = take ms (drop d T)))"

definition flush :: "enc_state \<Rightarrow> byte list" where
  "flush st = (if inscnt st \<noteq> 0
     then (out st)[length (out st) - inscnt st - 1 := of_nat (inscnt st)] else out st)"

definition closed_ops :: "opcode list \<Rightarrow> byte list \<Rightarrow> opcode list" where
  "closed_ops ops lits = (if lits = [] then ops else ops @ [INSERT lits])"

definition enc_inv :: "byte list \<Rightarrow> byte list \<Rightarrow> byte list \<Rightarrow> opcode list \<Rightarrow> byte list \<Rightarrow> enc_state \<Rightarrow> bool" where
  "enc_inv R T hdr ops lits st \<longleftrightarrow>
     (\<exists>x. out st = hdr @ concat (map op_bytes ops) @ (if lits = [] then [] else x # lits))
     \<and> inscnt st = length lits \<and> length lits < 127
     \<and> (\<forall>op \<in> set ops. valid_op R op)
     \<and> concat (map (op_result R) ops) @ lits = take (data st) T
     \<and> data st \<le> length T"

definition size_inv :: "enc_state \<Rightarrow> bool" where
  "size_inv st \<longleftrightarrow> length (out st) + 8 \<le> outsize st \<and> 8192 \<le> outsize st
     \<and> outsize st < 2 ^ 32 \<and> length (out st) \<le> 10 + 2 * data st"

text \<open>
  Modelled from the spec: the opcodes of a delta, read by the wire format of section 6
  after its two sizes.
\<close>

definition delta_opcodes :: "byte list \<Rightarrow> opcode list option" where
  "delta_opcodes delta =
     (case read_size delta of
        None \<Rightarrow> None
      | Some (rsz, d1) \<Rightarrow>
          (case read_size d1 of None \<Rightarrow> None | Some (tsz, d2) \<Rightarrow> parse_ops d2))"

text \<open>
  A small run: against the reference of two zero bytes, the target \<open>5, 0, 0, 0\<close> is
  encoded as a literal, a COPY of two bytes and another literal.
\<close>

definition zero_ref :: "byte list" where
  "zero_ref = [0, 0]"

definition lit_copy_lit :: "byte list" where
  "lit_copy_lit = [5, 0, 0, 0]"

definition zero_ref_index :: bdfile where
  "zero_ref_index = \<lparr>fphbits = 1, fphash = [[\<lparr>fp = 0, ptr = 0\<rparr>], []]\<rparr>"

definition potential :: "nat \<Rightarrow> enc_state \<Rightarrow> bool" where
  "potential h st \<longleftrightarrow>
     3 * length (out st) + inscnt st \<le> 3 * h + 4 * data st + (if inscnt st = 0 then 0 else 3)"

text \<open>
  The cost of a COPY opcode in the words of the specification: one, plus the number of
  non-zero bytes among the four bytes of the offset, plus the number of non-zero bytes
  among the two low bytes of the size.
\<close>

definition byte_of :: "nat \<Rightarrow> nat \<Rightarrow> nat" where
  "byte_of v i = v div 256 ^ i mod 256"

definition cost :: "nat \<Rightarrow> nat \<Rightarrow> nat" where
  "cost off sz =
     1 + length (filter (\<lambda>i. byte_of off i \<noteq> 0) [0..<4])
       + length (filter (\<lambda>i. byte_of sz i \<noteq> 0) [0..<2])"

text \<open>
  The length of the match between the reference at offset \<open>p\<close> and the target at offset
  \<open>d\<close>, as lines 215 to 222 compute it; the fingerprint of the target block at \<open>d\<close>;
  and the chain that the search at \<open>d\<close> walks.
\<close>

definition match_at :: "byte list \<Rightarrow> byte list \<Rightarrow> nat \<Rightarrow> nat \<Rightarrow> nat" where
  "match_at R T d p =
     match_run (if to_uint (int (length R) - int p) > length T - d then length T - d
                else to_uint (int (length R) - int p))
       (drop p R) (drop d T)"

definition block_fp :: "byte list \<Rightarrow> nat \<Rightarrow> u32" where
  "block_fp T d = adler32 0 (take (min (length T - d) BLK_SIZE) (drop d T))"

definition probed_chain :: "bdfile \<Rightarrow> byte list \<Rightarrow> nat \<Rightarrow> bdrecord list" where
  "probed_chain bdf T d = fphash bdf ! HASH (block_fp T d) (fphbits bdf)"

text \<open>
  Two runs for the order of a chain: a reference of two zero blocks, and a target of one.
\<close>

definition two_blocks :: "byte list" where
  "two_blocks = replicate 32 0"

definition one_block :: "byte list" where
  "one_block = replicate 16 0"

definition chains_above :: "int \<Rightarrow> bdrecord list list \<Rightarrow> bool" where
  "chains_above pos hash \<longleftrightarrow>
     (\<forall>chain \<in> set hash. sorted_wrt (<) (map ptr chain) \<and> (\<forall>b \<in> set chain. pos < int (ptr b)))"

definition capped :: "nat \<Rightarrow> byte list \<Rightarrow> enc_state \<Rightarrow> bool" where
  "capped m T st \<longleftrightarrow> 9 \<le> outsize st \<and> outsize st \<le> m + 8 \<and> outsize st < 2 ^ 32
     \<and> length (out st) \<le> 10 + 2 * data st \<and> data st \<le> length T"

text \<open>
  A record of the index is faithful to the reference when it stands at a multiple of the
  block size and carries the fingerprint of the block that starts there.
\<close>

definition block_of :: "byte list \<Rightarrow> nat \<Rightarrow> byte list" where
  "block_of buf p = take (min BLK_SIZE (length buf - p)) (drop p buf)"

definition faithful :: "byte list \<Rightarrow> bdrecord \<Rightarrow> bool" where
  "faithful buf b \<longleftrightarrow> BLK_SIZE dvd ptr b \<and> fp b = adler32 0 (block_of buf (ptr b))"

definition last_block :: "byte list \<Rightarrow> int" where
  "last_block R =
     (if int (length R div BLK_SIZE * BLK_SIZE) = int (length R)
      then int (length R div BLK_SIZE * BLK_SIZE) - int BLK_SIZE
      else int (length R div BLK_SIZE * BLK_SIZE))"

text \<open>
  The index that \<open>delta_prepare\<close> returns for a reference shorter than \<open>2 ^ 31\<close>
  bytes, whose size the \<open>int bufsize\<close> carries unchanged.
\<close>

definition block_index :: "byte list \<Rightarrow> bdfile" where
  "block_index R =
     \<lparr>fphbits = hashbits (length R div BLK_SIZE + 1),
      fphash = prepare_loop R (int (length R)) (hashbits (length R div BLK_SIZE + 1))
                 (last_block R) (replicate (2 ^ hashbits (length R div BLK_SIZE + 1)) [])\<rparr>"

text \<open>
  What the decoder reads for an opcode: the four offset bytes of a COPY carry the offset
  modulo \<open>2 ^ 32\<close>.
\<close>

fun wire_op :: "opcode \<Rightarrow> opcode" where
  "wire_op (INSERT lits) = INSERT lits"
| "wire_op (COPY off sz) = COPY (off mod 2 ^ 32) sz"

text \<open>A reference of \<open>2 ^ 31\<close> bytes.\<close>

definition two_gib :: "byte list" where
  "two_gib = replicate (2 ^ 31) 0"

text \<open>
  A run that overruns the output buffer: a reference of 272 bytes 1 followed by 16112
  bytes 0, and a target of 257 bytes 0, which matches the reference from offset 272 on.
\<close>

definition ones_then_zeros :: "byte list" where
  "ones_then_zeros = replicate 272 1 @ replicate 16112 0"

definition zero_run :: "byte list" where
  "zero_run = replicate 257 0"

section \<open>Opcode sizes and the size of the hash table\<close>

lemma MAX_OP_SIZE_eq: "MAX_OP_SIZE = 7"
  by (simp add: MAX_OP_SIZE_def COPYOP_SIZE_def)

lemma COPYOP_SIZE_le: "COPYOP_SIZE off sz \<le> 7"
  by (simp add: COPYOP_SIZE_def of_bool_def)

text \<open>
  Claim C6, as amended: \<open>MAX_OP_SIZE\<close>, the COPY opcode cost at the largest offset and
  size, is 7 (the opcode byte, four offset bytes and two size bytes), and no COPY opcode
  costs more.
\<close>

theorem MAX_OP_SIZE_is_7:
  "MAX_OP_SIZE = 7 \<and> (\<forall>off sz. COPYOP_SIZE off sz \<le> MAX_OP_SIZE)"
  by (simp add: MAX_OP_SIZE_def) (simp add: COPYOP_SIZE_def of_bool_def)

text \<open>Claim C6 as stated fails: \<open>MAX_OP_SIZE\<close> is not 8.\<close>

theorem MAX_OP_SIZE_not_8: "MAX_OP_SIZE \<noteq> 8"
  by (simp add: MAX_OP_SIZE_def COPYOP_SIZE_def)

lemma hashbits_loop_spec:
  assumes "sz \<le> 2 ^ 31" "bits \<le> 31" "val = 2 ^ bits" "\<forall>j<bits. 2 ^ j < sz"
  shows "sz \<le> 2 ^ hashbits_loop sz val bits \<and> (\<forall>j < hashbits_loop sz val bits. 2 ^ j < sz)
    \<and> hashbits_loop sz val bits \<le> 31"
  using assms
proof (induction sz val bits rule: hashbits_loop.induct)
  case (1 sz val bits)
  show ?case
  proof (cases "val < sz")
    case True
    with 1 have lt: "(2::nat) ^ bits < 2 ^ 31" by simp
    have b30: "bits < 31"
    proof (rule power_less_imp_less_exp)
      show "(1::nat) < 2" by simp
      show "(2::nat) ^ bits < 2 ^ 31" by (fact lt)
    qed
    then have "(2::nat) ^ (bits + 1) \<le> 2 ^ 31"
      by (intro power_increasing) simp_all
    then have v: "(val * 2) mod 2 ^ 32 = 2 ^ (bits + 1)" using 1(4) by simp
    have all: "\<forall>j<bits + 1. 2 ^ j < sz"
      using 1(5) True 1(4) by (auto simp: less_Suc_eq)
    have "hashbits_loop sz val bits = hashbits_loop sz ((val * 2) mod 2 ^ 32) (bits + 1)"
      using True b30 by (subst hashbits_loop.simps) simp
    moreover have "sz \<le> 2 ^ hashbits_loop sz ((val * 2) mod 2 ^ 32) (bits + 1)
      \<and> (\<forall>j < hashbits_loop sz ((val * 2) mod 2 ^ 32) (bits + 1). 2 ^ j < sz)
      \<and> hashbits_loop sz ((val * 2) mod 2 ^ 32) (bits + 1) \<le> 31"
    proof (rule 1(1))
      show "val < sz \<and> bits < 32" using True b30 by simp
      show "sz \<le> 2 ^ 31" by (fact 1(2))
      show "bits + 1 \<le> 31" using b30 by simp
      show "(val * 2) mod 2 ^ 32 = 2 ^ (bits + 1)" by (fact v)
      show "\<forall>j<bits + 1. 2 ^ j < sz" by (fact all)
    qed
    ultimately show ?thesis by simp
  next
    case False
    then have "hashbits_loop sz val bits = bits"
      by (subst hashbits_loop.simps) simp
    with False 1 show ?thesis by simp
  qed
qed

lemma hashbits_spec:
  assumes "sz \<le> 2 ^ 31"
  shows "1 \<le> hashbits sz" "sz \<le> 2 ^ hashbits sz"
    "1 \<le> j \<Longrightarrow> sz \<le> 2 ^ j \<Longrightarrow> hashbits sz \<le> j" "hashbits sz \<le> 31"
proof -
  let ?b = "hashbits_loop sz 1 0"
  have h: "sz \<le> 2 ^ ?b \<and> (\<forall>j < ?b. 2 ^ j < sz) \<and> ?b \<le> 31"
    using assms by (intro hashbits_loop_spec) simp_all
  show "1 \<le> hashbits sz" by (simp add: hashbits_def Let_def)
  show "sz \<le> 2 ^ hashbits sz"
  proof (cases "?b = 0")
    case True
    with h have "sz \<le> 1" by simp
    then show ?thesis using True by (simp add: hashbits_def)
  next
    case False
    then show ?thesis using h by (simp add: hashbits_def)
  qed
  show "hashbits sz \<le> 31" using h by (simp add: hashbits_def Let_def)
  show "hashbits sz \<le> j" if "1 \<le> j" "sz \<le> 2 ^ j"
  proof (rule ccontr)
    assume "\<not> hashbits sz \<le> j"
    then have "j < hashbits sz" by simp
    with that(1) have "j < ?b" by (auto simp: hashbits_def Let_def split: if_splits)
    with h have "2 ^ j < sz" by blast
    with that(2) show False by simp
  qed
qed

lemma length_prepare_loop: "length (prepare_loop buf bufsize hbits pos hash) = length hash"
proof (induction buf bufsize hbits pos hash rule: prepare_loop.induct)
  case (1 buf bufsize hbits pos hash)
  show ?case
  proof (cases "0 \<le> pos")
    case True
    then show ?thesis
      using 1 by (subst prepare_loop.simps) (simp add: Let_def)
  next
    case False
    then show ?thesis by (subst prepare_loop.simps) simp
  qed
qed

lemma fphbits_block_index:
  "fphbits (block_index buf) = hashbits (length buf div BLK_SIZE + 1)"
  by (simp add: block_index_def)

lemma length_fphash_block_index:
  "length (fphash (block_index buf)) = 2 ^ fphbits (block_index buf)"
  by (simp add: block_index_def length_prepare_loop)

lemma to_int_eq: "n < 2 ^ 31 \<Longrightarrow> to_int n = int n"
  by (simp add: to_int_def)

lemma to_uint_eq: "0 \<le> i \<Longrightarrow> i < 2 ^ 32 \<Longrightarrow> to_uint i = nat i"
  by (simp add: to_uint_def)

lemma to_uint_less: "to_uint i < 2 ^ 32"
  by (simp add: to_uint_def)

lemma sdiv_BLK_SIZE: "int n sdiv int BLK_SIZE = int (n div BLK_SIZE)"
  by (simp add: signed_divide_int_def sgn_if zdiv_int BLK_SIZE_def)

lemma delta_prepare_in_range:
  assumes "length R < 2 ^ 31"
  shows "delta_prepare R = Inr (block_index R)"
proof -
  let ?n = "length R div BLK_SIZE + 1"
  have b: "to_int (length R) = int (length R)" using assms by (rule to_int_eq)
  have "?n \<le> 2 ^ 28" using assms by (simp add: BLK_SIZE_def)
  then have n: "?n \<le> 2 ^ 31" and h: "hashbits ?n \<le> 28"
    using hashbits_spec(3) [of ?n 28] by simp_all
  have "to_uint (int (length R div BLK_SIZE) + 1) = nat (int (length R div BLK_SIZE) + 1)"
    using \<open>?n \<le> 2 ^ 28\<close> by (intro to_uint_eq) simp_all
  then have u: "to_uint (int (length R div BLK_SIZE) + 1) = ?n" by simp
  have "\<not> 31 \<le> hashbits ?n" using h by simp
  then show ?thesis
    by (simp add: delta_prepare_def block_index_def last_block_def Let_def b sdiv_BLK_SIZE u)
qed

lemma block_index_bits:
  assumes "length R < 2 ^ 31"
  shows "1 \<le> fphbits (block_index R)" "fphbits (block_index R) \<le> 28"
proof -
  let ?n = "length R div BLK_SIZE + 1"
  have "?n \<le> 2 ^ 28" using assms by (simp add: BLK_SIZE_def)
  then show "1 \<le> fphbits (block_index R)" "fphbits (block_index R) \<le> 28"
    using hashbits_spec(1) [of ?n] hashbits_spec(3) [of ?n 28]
    by (simp_all add: fphbits_block_index)
qed

lemma hashbits_2: "hashbits (Suc (Suc 0)) = 1"
  by (simp add: hashbits_def hashbits_loop.simps)

text \<open>
  Claim C5, as amended: for a non-empty reference \<open>R\<close> (shorter than \<open>2 ^ 31\<close> bytes,
  the range of the \<open>int\<close> that carries its size), \<open>delta_prepare\<close> makes a hash table
  of exactly \<open>2 ^ k\<close> buckets, where \<open>k\<close> is the smallest integer from 1 on with
  \<open>2 ^ k \<ge> \<lfloor>|R| / B\<rfloor> + 1\<close> and \<open>B = 16\<close>: the quotient is rounded down, not up.
\<close>

theorem delta_prepare_buckets:
  assumes "R \<noteq> []" and "length R < 2 ^ 31"
  shows "\<exists>bdf. delta_prepare R = Inr bdf
    \<and> BLK_SIZE = 16 \<and> length (fphash bdf) = 2 ^ fphbits bdf
    \<and> 1 \<le> fphbits bdf
    \<and> length R div BLK_SIZE + 1 \<le> 2 ^ fphbits bdf
    \<and> (\<forall>j. 1 \<le> j \<and> length R div BLK_SIZE + 1 \<le> 2 ^ j \<longrightarrow> fphbits bdf \<le> j)"
proof -
  have "length R div BLK_SIZE + 1 \<le> 2 ^ 31"
    using assms(2) by (simp add: BLK_SIZE_def)
  from hashbits_spec [OF this]
  have "BLK_SIZE = 16 \<and> length (fphash (block_index R)) = 2 ^ fphbits (block_index R)
    \<and> 1 \<le> fphbits (block_index R)
    \<and> length R div BLK_SIZE + 1 \<le> 2 ^ fphbits (block_index R)
    \<and> (\<forall>j. 1 \<le> j \<and> length R div BLK_SIZE + 1 \<le> 2 ^ j \<longrightarrow> fphbits (block_index R) \<le> j)"
    by (simp add: fphbits_block_index length_fphash_block_index BLK_SIZE_def)
  with delta_prepare_in_range [OF assms(2)] show ?thesis by blast
qed

lemma replicate_num: "replicate (numeral k) x = x # replicate (pred_numeral k) x"
  by (simp add: numeral_eq_Suc)

lemma adler_sums_zeros: "adler_sums 0 0 (replicate n 0) = (0, 0)"
  by (induction n) simp_all

lemma adler32_zeros: "adler32 0 (replicate n 0) = 0"
  by (simp add: adler32_def adler_sums_zeros)

lemma HASH_0: "HASH 0 b = 0"
  by (simp add: HASH_def)

lemma prepare_loop_stop: "pos < 0 \<Longrightarrow> prepare_loop buf bufsize hbits pos hash = hash"
  by (subst prepare_loop.simps) simp

lemma prepare_loop_zeros:
  assumes "0 \<le> pos"
  shows "prepare_loop (replicate n 0) bufsize hbits pos hash
    = prepare_loop (replicate n 0) bufsize hbits (pos - 16)
        (hash[0 := \<lparr>fp = 0, ptr = nat pos\<rparr> # hash ! 0])"
  using assms by (subst prepare_loop.simps) (simp add: adler32_zeros HASH_0 BLK_SIZE_def)

lemma seventeen_index:
  "delta_prepare (replicate 17 0)
     = Inr \<lparr>fphbits = 1, fphash = [[\<lparr>fp = 0, ptr = 0\<rparr>, \<lparr>fp = 0, ptr = 16\<rparr>], []]\<rparr>"
proof -
  have "replicate 2 ([] :: bdrecord list) = [[], []]"
    by (simp add: replicate_num)
  then have "block_index (replicate 17 0)
      = \<lparr>fphbits = 1, fphash = [[\<lparr>fp = 0, ptr = 0\<rparr>, \<lparr>fp = 0, ptr = 16\<rparr>], []]\<rparr>"
    by (simp add: block_index_def last_block_def BLK_SIZE_def hashbits_2 prepare_loop_zeros
        prepare_loop_stop)
  moreover have "length (replicate 17 (0::byte)) < 2 ^ 31" by simp
  ultimately show ?thesis by (simp add: delta_prepare_in_range)
qed

theorem delta_prepare_buckets_witness:
  "replicate 17 (0::byte) \<noteq> [] \<and> length (replicate 17 (0::byte)) < 2 ^ 31
   \<and> (\<exists>bdf. delta_prepare (replicate 17 0) = Inr bdf \<and> length (fphash bdf) = 2 ^ 1)
   \<and> length (replicate 17 (0::byte)) div BLK_SIZE + 1 \<le> 2 ^ 1"
  using delta_prepare_buckets [of "replicate 17 0"]
  by (simp add: seventeen_index BLK_SIZE_def)

text \<open>
  Claim C5 as stated fails for a reference of 17 bytes: the table has 2 buckets, but
  \<open>\<lceil>17 / 16\<rceil> + 1 = 3\<close>, so no \<open>k\<close> makes \<open>2 ^ k\<close> both the number of buckets and
  at least \<open>\<lceil>|R| / B\<rceil> + 1\<close>.
\<close>

theorem buckets_ceiling_counterexample:
  "delta_prepare (replicate 17 0)
     = Inr \<lparr>fphbits = 1, fphash = [[\<lparr>fp = 0, ptr = 0\<rparr>, \<lparr>fp = 0, ptr = 16\<rparr>], []]\<rparr>
   \<and> \<not> (\<exists>k. 1 \<le> k
        \<and> (length (replicate 17 (0::byte)) + BLK_SIZE - 1) div BLK_SIZE + 1 \<le> 2 ^ k
        \<and> length [[\<lparr>fp = 0, ptr = 0\<rparr>, \<lparr>fp = 0, ptr = 16\<rparr>], []] = 2 ^ k)"
proof -
  have "\<not> (\<exists>k. 1 \<le> k
        \<and> (length (replicate 17 (0::byte)) + BLK_SIZE - 1) div BLK_SIZE + 1 \<le> 2 ^ k
        \<and> length [[\<lparr>fp = 0, ptr = 0\<rparr>, \<lparr>fp = 0, ptr = 16\<rparr>], []] = 2 ^ k)"
  proof
    assume "\<exists>k. 1 \<le> k
        \<and> (length (replicate 17 (0::byte)) + BLK_SIZE - 1) div BLK_SIZE + 1 \<le> 2 ^ k
        \<and> length [[\<lparr>fp = 0, ptr = 0\<rparr>, \<lparr>fp = 0, ptr = 16\<rparr>], []] = 2 ^ k"
    then obtain k :: nat where "3 \<le> (2::nat) ^ k" "(2::nat) ^ k = 2"
      by (auto simp: BLK_SIZE_def)
    then show False by linarith
  qed
  with seventeen_index show ?thesis by blast
qed

section \<open>Empty inputs\<close>

text \<open>
  Claim C9: when the reference or the target (or both) is empty, \<open>diff_delta\<close> fails
  with the empty-input error and returns no delta, whatever \<open>max_size\<close> is.
\<close>

theorem diff_delta_empty_input:
  "from_buf = [] \<or> to_buf = [] \<Longrightarrow> diff_delta from_buf to_buf max_size = Inl EmptyInput"
  by (simp add: diff_delta_def)

theorem diff_delta_empty_input_witness:
  "diff_delta [] [1, 2] 5 = Inl EmptyInput \<and> diff_delta [1] [] 0 = Inl EmptyInput
   \<and> diff_delta [] [] 0 = Inl EmptyInput"
  using diff_delta_empty_input [of "[]" "[1, 2]" 5] diff_delta_empty_input [of "[1]" "[]" 0]
    diff_delta_empty_input [of "[]" "[]" 0]
  by simp

section \<open>Opcodes are read back as they were written\<close>

lemma and_push_mask: "((v::nat) AND push_bit n (mask k) = 0) = (take_bit k (drop_bit n v) = 0)"
proof -
  have "v AND push_bit n (mask k) = push_bit n (take_bit k (drop_bit n v))"
    by (rule bit_eqI) (auto simp: bit_simps)
  then show ?thesis by (simp add: push_bit_eq_0_iff del: push_bit_and)
qed

lemma and_ff: "(v::nat) AND 0xff = v mod 256"
proof -
  have "v AND mask 8 = v mod 2 ^ 8"
    by (simp only: take_bit_eq_mask [symmetric] take_bit_eq_mod)
  then show ?thesis by (simp add: mask_eq_exp_minus_1)
qed

lemma and_ff00: "((v::nat) AND 0xff00 = 0) = (v div 256 mod 256 = 0)"
proof -
  have "(v AND 0xff00 = 0) = (v AND push_bit 8 (mask 8) = 0)"
    by (simp add: mask_eq_exp_minus_1 push_bit_eq_mult)
  also have "\<dots> = (take_bit 8 (drop_bit 8 v) = 0)" by (rule and_push_mask)
  also have "\<dots> = (v div 256 mod 256 = 0)" by (simp add: take_bit_eq_mod drop_bit_eq_div)
  finally show ?thesis .
qed

lemma and_ff0000: "((v::nat) AND 0xff0000 = 0) = (v div 65536 mod 256 = 0)"
proof -
  have "(v AND 0xff0000 = 0) = (v AND push_bit 16 (mask 8) = 0)"
    by (simp add: mask_eq_exp_minus_1 push_bit_eq_mult)
  also have "\<dots> = (take_bit 8 (drop_bit 16 v) = 0)" by (rule and_push_mask)
  also have "\<dots> = (v div 65536 mod 256 = 0)" by (simp add: take_bit_eq_mod drop_bit_eq_div)
  finally show ?thesis .
qed

lemma and_ff000000: "((v::nat) AND 0xff000000 = 0) = (v div 16777216 mod 256 = 0)"
proof -
  have "(v AND 0xff000000 = 0) = (v AND push_bit 24 (mask 8) = 0)"
    by (simp add: mask_eq_exp_minus_1 push_bit_eq_mult)
  also have "\<dots> = (take_bit 8 (drop_bit 24 v) = 0)" by (rule and_push_mask)
  also have "\<dots> = (v div 16777216 mod 256 = 0)" by (simp add: take_bit_eq_mod drop_bit_eq_div)
  finally show ?thesis .
qed

lemma unat_byte_of_nat: "unat (of_nat v :: 8 word) = v mod 256"
  by (simp add: unsigned_of_nat take_bit_eq_mod)

lemma byte_bit7: "n < 128 \<Longrightarrow> \<not> bit (of_nat n :: 8 word) 7"
proof -
  assume n: "n < 128"
  have "bit (of_nat n :: 8 word) 7 = bit (unat (of_nat n :: 8 word)) 7"
    by (simp add: bit_unsigned_iff)
  also have "unat (of_nat n :: 8 word) = n"
    using n by (simp add: unsigned_of_nat take_bit_eq_mod)
  also have "bit n 7 = False"
    using n by (simp add: bit_iff_odd_drop_bit drop_bit_eq_div)
  finally show ?thesis by simp
qed

lemma byte_or80_bit7: "bit ((b :: 8 word) OR 0x80) 7"
  by (simp add: bit_simps)

lemma or_exp_and_mask: "((x :: 8 word) OR push_bit k 1) AND mask k = x AND mask k"
  by (rule bit_eqI) (auto simp: bit_simps)

lemma byte_low7: "unat ((of_nat n OR 0x80) AND 0x7f :: 8 word) = n mod 128"
proof -
  have "(of_nat n OR 0x80) AND 0x7f = (of_nat n :: 8 word) AND mask 7"
    using or_exp_and_mask [of "of_nat n" 7] by (simp add: mask_eq_exp_minus_1)
  then have "unat ((of_nat n OR 0x80) AND 0x7f :: 8 word) = unat (take_bit 7 (of_nat n :: 8 word))"
    by (simp only: take_bit_eq_mask)
  also have "\<dots> = take_bit 7 (unat (of_nat n :: 8 word))"
    by (rule unsigned_take_bit_eq)
  also have "\<dots> = take_bit 7 (n mod 256)"
    by (simp only: unat_byte_of_nat)
  also have "\<dots> = n mod 128"
    by (simp add: take_bit_eq_mod mod_mod_cancel)
  finally show ?thesis .
qed


lemma put_field_eq: "put_field (xs, i) v f = (xs @ fld v, i OR flg v f)"
  by (simp add: put_field_def and_ff fld_def flg_def)

lemma emit_copy_eq:
  "emit_copy outb off sz =
     (outb @ of_nat (128 OR flg off 1 OR flg (off div 256) 2 OR flg (off div 65536) 4
               OR flg (off div 16777216) 8 OR flg sz 16 OR flg (sz div 256) 32)
        # fld off @ fld (off div 256) @ fld (off div 65536) @ fld (off div 16777216)
        @ fld sz @ fld (sz div 256),
      off div 16777216)"
  by (simp add: emit_copy_def put_field_eq Let_def drop_bit_eq_div div_mult2_eq [symmetric]
      or.assoc)

lemma op_byte_bits:
  fixes a b c d e f :: nat
  defines "w \<equiv> (of_nat (128 OR flg a (Suc 0) OR flg b 2 OR flg c 4 OR flg d 8 OR flg e 16 OR flg f 32) :: byte)"
  shows "bit w 0 = (0 < a mod 256)" "bit w (Suc 0) = (0 < b mod 256)" "bit w 2 = (0 < c mod 256)"
    "bit w 3 = (0 < d mod 256)" "bit w 4 = (0 < e mod 256)" "bit w 5 = (0 < f mod 256)"
    "bit w 7"
  by (simp_all add: w_def flg_def bit_simps)

lemma read_field_fld: "read_field (0 < v mod 256) (fld v @ rest) = Some (v mod 256, rest)"
  by (simp add: read_field_def fld_def unat_byte_of_nat)

lemma length_fld: "length (fld v) = of_bool (v mod 256 \<noteq> 0)"
  by (simp add: fld_def)


lemma bytes2: "(v::nat) mod 256 + 256 * (v div 256 mod 256) = v mod 65536"
  using mod_mult2_eq [of v 256 256] by simp

lemma bytes4:
  "(v::nat) mod 256 + (256 * (v div 256 mod 256) + (65536 * (v div 65536 mod 256)
     + 16777216 * (v div 16777216 mod 256))) = v mod 4294967296"
proof -
  have a: "v mod 4294967296 = 65536 * (v div 65536 mod 65536) + v mod 65536"
    using mod_mult2_eq [of v 65536 65536] by simp
  have b: "v div 65536 mod 65536 = 256 * (v div 65536 div 256 mod 256) + v div 65536 mod 256"
    using mod_mult2_eq [of "v div 65536" 256 256] by simp
  have c: "v div 65536 div 256 = v div 16777216"
    by (simp add: div_mult2_eq [symmetric])
  show ?thesis
    unfolding a b c using bytes2 [of v] by simp
qed

lemma emit_copy_append: "fst (emit_copy outb off sz) = outb @ fst (emit_copy [] off sz)"
  by (simp add: emit_copy_eq)

lemma length_emit_copy: "length (fst (emit_copy [] off sz)) = COPYOP_SIZE off sz"
  by (simp add: emit_copy_eq COPYOP_SIZE_def length_fld and_ff and_ff00 and_ff0000 and_ff000000)

lemma read_op_copy:
  assumes "1 \<le> sz" "sz \<le> 0x10000"
  shows "read_op (fst (emit_copy [] off sz) @ rest) = Some (COPY (off mod 2 ^ 32) sz, rest)"
proof -
  have o: "off mod 65536 + 65536 * (off div 65536 mod 256)
      + 16777216 * (off div 16777216 mod 256) = off mod 4294967296"
    using bytes4 [of off] bytes2 [of off] by simp
  show ?thesis
  proof (cases "sz = 65536")
    case True
    have "fld sz = []" "fld (sz div 256) = []" "sz mod 256 = 0" "sz div 256 mod 256 = 0"
      using True by (simp_all add: fld_def)
    then show ?thesis
      by (simp add: emit_copy_eq read_op_def op_byte_bits read_copy_def read_field_fld
          bytes2 o True) (simp add: read_field_def)
  next
    case False
    with assms have lt: "sz mod 65536 = sz" by simp
    have nn: "\<not> (sz mod 256 = 0 \<and> sz div 256 mod 256 = 0)"
    proof
      assume "sz mod 256 = 0 \<and> sz div 256 mod 256 = 0"
      with bytes2 [of sz] lt have "sz = 0" by simp
      with assms(1) show False by simp
    qed
    show ?thesis
      by (simp add: emit_copy_eq read_op_def op_byte_bits read_copy_def read_field_fld
          bytes2 o lt nn)
  qed
qed

lemma read_op_insert:
  assumes "1 \<le> length lits" "length lits \<le> 127"
  shows "read_op (of_nat (length lits) # lits @ rest) = Some (INSERT lits, rest)"
proof -
  have "\<not> bit (of_nat (length lits) :: byte) 7"
    using assms by (intro byte_bit7) simp
  moreover have "unat (of_nat (length lits) :: byte) = length lits"
    using assms by (simp add: unat_byte_of_nat)
  moreover from this have "(of_nat (length lits) :: byte) \<noteq> 0"
    using assms(1) by (metis not_one_le_zero unsigned_0)
  ultimately show ?thesis
    by (simp add: read_op_def)
qed

lemma read_op_op_bytes:
  assumes "valid_op R op"
  shows "read_op (op_bytes op @ rest) = Some (wire_op op, rest)"
proof (cases op)
  case (INSERT lits)
  with assms show ?thesis by (simp add: read_op_insert)
next
  case (COPY off sz)
  with assms show ?thesis using read_op_copy [of sz off rest] by simp
qed

lemma wire_op_valid:
  assumes "valid_op R op" "length R < 2 ^ 32"
  shows "wire_op op = op"
  using assms by (cases op) simp_all

lemma op_bytes_nonempty: "op_bytes op \<noteq> []"
  by (cases op) (simp_all add: emit_copy_eq)

lemma parse_ops_wire:
  assumes "\<forall>op \<in> set ops. valid_op R op"
  shows "parse_ops (concat (map op_bytes ops)) = Some (map wire_op ops)"
  using assms
proof (induction ops)
  case Nil
  then show ?case by (simp add: parse_ops.simps)
next
  case (Cons op ops)
  then have "read_op (op_bytes op @ concat (map op_bytes ops))
      = Some (wire_op op, concat (map op_bytes ops))"
    by (intro read_op_op_bytes [of R]) simp_all
  moreover have "parse_ops (concat (map op_bytes ops)) = Some (map wire_op ops)"
    using Cons by simp
  ultimately show ?case
    by (subst parse_ops.simps) (simp add: op_bytes_nonempty)
qed

lemma parse_ops_concat:
  assumes "\<forall>op \<in> set ops. valid_op R op" "length R < 2 ^ 32"
  shows "parse_ops (concat (map op_bytes ops)) = Some ops"
proof -
  have "map wire_op ops = ops"
    using assms by (intro map_idI wire_op_valid [of R]) simp_all
  with parse_ops_wire [OF assms(1)] show ?thesis by simp
qed

lemma apply_ops_valid:
  assumes "\<forall>op \<in> set ops. valid_op R op"
  shows "apply_ops R ops = Some (concat (map (op_result R) ops))"
  using assms
proof (induction ops)
  case Nil
  then show ?case by simp
next
  case (Cons op ops)
  then show ?case by (cases op) simp_all
qed

section \<open>The header and the search for a match\<close>

lemma put_size_loop_tail: "put_size_loop (xs @ [b]) m = xs @ size_tail b m"
proof (induction b m arbitrary: xs rule: size_tail.induct)
  case (1 b m)
  show ?case
  proof (cases "m = 0")
    case True
    then show ?thesis
      by (subst put_size_loop.simps, subst size_tail.simps) simp
  next
    case False
    have "put_size_loop (xs @ [b]) m
        = put_size_loop ((xs @ [b OR 0x80]) @ [of_nat m]) (m div 128)"
      using False by (subst put_size_loop.simps) (simp add: drop_bit_eq_div nth_append)
    also have "\<dots> = (xs @ [b OR 0x80]) @ size_tail (of_nat m) (m div 128)"
      using False by (rule 1)
    also have "\<dots> = xs @ size_tail b m"
      using False by (subst (2) size_tail.simps) simp
    finally show ?thesis .
  qed
qed

lemma put_size_eq: "put_size outb sz = outb @ size_tail (of_nat sz) (sz div 128)"
  by (simp add: put_size_def put_size_loop_tail drop_bit_eq_div)

lemma read_size_tail: "read_size (size_tail (of_nat n) (n div 128) @ rest) = Some (n, rest)"
proof (induction n rule: less_induct)
  case (less n)
  show ?case
  proof (cases "n div 128 = 0")
    case True
    then have "n < 128" by (simp add: div_eq_0_iff)
    then show ?thesis
      using True byte_bit7 [of n] by (subst size_tail.simps) (simp add: unat_byte_of_nat)
  next
    case False
    then have "n div 128 < n" by simp
    then have "read_size (size_tail (of_nat (n div 128)) (n div 128 div 128) @ rest)
        = Some (n div 128, rest)"
      by (rule less)
    then show ?thesis
      using False by (subst size_tail.simps) (simp add: byte_or80_bit7 byte_low7)
  qed
qed

lemma length_size_tail: "m < 128 ^ k \<Longrightarrow> length (size_tail b m) \<le> Suc k"
proof (induction k arbitrary: b m)
  case 0
  then show ?case by (subst size_tail.simps) simp
next
  case (Suc k)
  show ?case
  proof (cases "m = 0")
    case True
    then show ?thesis by (subst size_tail.simps) simp
  next
    case False
    from Suc.prems have "m div 128 < 128 ^ k"
      by (simp add: less_mult_imp_div_less mult.commute)
    then have "length (size_tail (of_nat m) (m div 128)) \<le> Suc k"
      by (rule Suc.IH)
    then show ?thesis
      using False by (subst size_tail.simps) simp
  qed
qed

lemma size_tail_nonempty: "1 \<le> length (size_tail b m)"
  by (subst size_tail.simps) simp

lemma length_put_size:
  assumes "sz < 2 ^ 35"
  shows "length (put_size outb sz) \<le> length outb + 5" "length outb + 1 \<le> length (put_size outb sz)"
proof -
  have "sz div 128 < 128 ^ 4" using assms by simp
  from length_size_tail [OF this] show "length (put_size outb sz) \<le> length outb + 5"
    by (simp add: put_size_eq)
  show "length outb + 1 \<le> length (put_size outb sz)"
    using size_tail_nonempty [of "of_nat sz" "sz div 128"] by (simp add: put_size_eq)
qed

lemma match_run_le: "match_run c xs ys \<le> c"
  by (induction c xs ys rule: match_run.induct) auto

lemma match_run_take: "take (match_run c xs ys) xs = take (match_run c xs ys) ys"
  by (induction c xs ys rule: match_run.induct) auto

lemma match_run_length: "match_run c xs ys \<le> length xs" "match_run c xs ys \<le> length ys"
  by (induction c xs ys rule: match_run.induct) auto

lemma good_match_run:
  assumes "c = match_run k (drop p R) (drop d T)" "0 < c" "ms \<le> c" "ms \<le> 0x10000"
  shows "good_match R T d (p, ms)"
proof -
  have le: "c \<le> length R - p" "c \<le> length T - d"
    using match_run_length [of k "drop p R" "drop d T"] assms(1) by simp_all
  have "take c (drop p R) = take c (drop d T)"
    unfolding assms(1) by (rule match_run_take)
  then have "take ms (take c (drop p R)) = take ms (take c (drop d T))" by simp
  then have "take ms (drop p R) = take ms (drop d T)"
    using assms(3) by (simp add: min_absorb1)
  moreover have "p + ms \<le> length R" "d + ms \<le> length T"
    using le assms(2,3) by arith+
  ultimately show ?thesis
    using assms(4) by (simp add: good_match_def)
qed

lemma walk_chain_good:
  "good_match R T d m \<Longrightarrow> good_match R T d (walk_chain R T d f chain m)"
proof (induction chain arbitrary: m)
  case Nil
  then show ?case by (cases m) simp
next
  case (Cons brec chain)
  obtain mo ms where m: "m = (mo, ms)" by (cases m)
  define c where "c = match_run
      (if to_uint (int (length R) - int (ptr brec)) > length T - d then length T - d
       else to_uint (int (length R) - int (ptr brec))) (drop (ptr brec) R) (drop d T)"
  show ?case
  proof (cases "fp brec = f \<and> c > ms")
    case False
    then have "walk_chain R T d f (brec # chain) m = walk_chain R T d f chain m"
      by (auto simp: m c_def Let_def)
    with Cons show ?thesis by simp
  next
    case True
    show ?thesis
    proof (cases "c \<ge> 0x10000")
      case big: True
      have "good_match R T d (ptr brec, 0x10000)"
        using True big by (intro good_match_run [OF c_def]) simp_all
      moreover have "walk_chain R T d f (brec # chain) m = (ptr brec, 0x10000)"
        using True big by (simp add: m c_def Let_def)
      ultimately show ?thesis by simp
    next
      case small: False
      have "good_match R T d (ptr brec, c)"
        using True small by (intro good_match_run [OF c_def]) simp_all
      then have "good_match R T d (walk_chain R T d f chain (ptr brec, c))"
        by (rule Cons.IH)
      moreover have "walk_chain R T d f (brec # chain) m = walk_chain R T d f chain (ptr brec, c)"
        using True small by (simp add: m c_def Let_def)
      ultimately show ?thesis by simp
    qed
  qed
qed

lemma find_match_good: "good_match R T d (find_match R T bdf d mo)"
  unfolding find_match_def Let_def
  by (rule walk_chain_good) (simp add: good_match_def)

section \<open>The encoder writes a delta of the target\<close>

lemma enc_step_insert:
  assumes "find_match R T bdf (data st) (moff st) = (mo, ms)" "ms = 0 \<or> ms < COPYOP_SIZE mo ms"
  shows "enc_step R T bdf st =
    (if inscnt st = 126
     then st\<lparr>out := (out st @ [T ! data st])[length (out st) - 127 := 127], inscnt := 0,
             moff := mo, data := data st + 1\<rparr>
     else st\<lparr>out := (if inscnt st = 0 then out st @ [0] else out st) @ [T ! data st],
             inscnt := inscnt st + 1, moff := mo, data := data st + 1\<rparr>)"
  using assms by (auto simp: enc_step_def Let_def)

lemma enc_step_copy:
  assumes "find_match R T bdf (data st) (moff st) = (mo, ms)"
    "\<not> (ms = 0 \<or> ms < COPYOP_SIZE mo ms)"
  shows "enc_step R T bdf st =
    st\<lparr>out := flush st @ op_bytes (COPY mo ms), inscnt := 0, moff := mo div 16777216,
       data := data st + ms\<rparr>"
  using assms by (simp add: enc_step_def flush_def emit_copy_eq Let_def)

lemma flush_inv:
  assumes "enc_inv R T hdr ops lits st"
  shows "flush st = hdr @ concat (map op_bytes (closed_ops ops lits))"
    and "\<forall>op \<in> set (closed_ops ops lits). valid_op R op"
    and "concat (map (op_result R) (closed_ops ops lits)) = take (data st) T"
proof -
  from assms obtain x where
    o: "out st = hdr @ concat (map op_bytes ops) @ (if lits = [] then [] else x # lits)"
    and i: "inscnt st = length lits" and l: "length lits < 127"
    and v: "\<forall>op \<in> set ops. valid_op R op"
    and r: "concat (map (op_result R) ops) @ lits = take (data st) T"
    by (auto simp: enc_inv_def)
  show "flush st = hdr @ concat (map op_bytes (closed_ops ops lits))"
  proof (cases "lits = []")
    case True
    then show ?thesis using o i by (simp add: flush_def closed_ops_def)
  next
    case False
    have "out st = (hdr @ concat (map op_bytes ops)) @ x # lits" using o False by simp
    moreover have "length (out st) - inscnt st - 1 = length (hdr @ concat (map op_bytes ops))"
      using o False i by simp
    ultimately have "(out st)[length (out st) - inscnt st - 1 := of_nat (inscnt st)]
        = (hdr @ concat (map op_bytes ops)) @ of_nat (inscnt st) # lits"
      by (simp only: list_update_length)
    then show ?thesis using False i by (simp add: flush_def closed_ops_def)
  qed
  show "\<forall>op \<in> set (closed_ops ops lits). valid_op R op"
    using v l by (auto simp: closed_ops_def Suc_le_eq)
  show "concat (map (op_result R) (closed_ops ops lits)) = take (data st) T"
    using r by (auto simp: closed_ops_def)
qed

lemma enc_step_inv:
  assumes inv: "enc_inv R T hdr ops lits st" and d: "data st < length T"
  shows "\<exists>ops' lits'. enc_inv R T hdr ops' lits' (enc_step R T bdf st)"
proof -
  obtain mo ms where fm: "find_match R T bdf (data st) (moff st) = (mo, ms)"
    by (cases "find_match R T bdf (data st) (moff st)")
  from inv obtain x where
    o: "out st = hdr @ concat (map op_bytes ops) @ (if lits = [] then [] else x # lits)"
    and i: "inscnt st = length lits" and l: "length lits < 127"
    and v: "\<forall>op \<in> set ops. valid_op R op"
    and r: "concat (map (op_result R) ops) @ lits = take (data st) T"
    by (auto simp: enc_inv_def)
  have tk: "take (data st + 1) T = take (data st) T @ [T ! data st]"
    using d by (simp add: take_Suc_conv_app_nth)
  show ?thesis
  proof (cases "ms = 0 \<or> ms < COPYOP_SIZE mo ms")
    case True
    note st' = enc_step_insert [OF fm True]
    show ?thesis
    proof (cases "inscnt st = 126")
      case full: True
      then have ne: "lits \<noteq> []" using i by auto
      let ?pre = "hdr @ concat (map op_bytes ops)"
      have "out st @ [T ! data st] = ?pre @ x # (lits @ [T ! data st])" using o ne by simp
      moreover have "length (out st) - 127 = length ?pre" using o ne i full by simp
      ultimately have "(out st @ [T ! data st])[length (out st) - 127 := 127]
          = ?pre @ 127 # (lits @ [T ! data st])"
        by (simp only: list_update_length)
      moreover have "op_bytes (INSERT (lits @ [T ! data st])) = 127 # (lits @ [T ! data st])"
        using i full by simp
      ultimately have "enc_inv R T hdr (ops @ [INSERT (lits @ [T ! data st])]) []
          (enc_step R T bdf st)"
        using full v r d i tk by (simp add: st' enc_inv_def)
      then show ?thesis by blast
    next
      case False
      have "enc_inv R T hdr ops (lits @ [T ! data st]) (enc_step R T bdf st)"
        using False o i l v r d tk by (auto simp: st' enc_inv_def)
      then show ?thesis by blast
    qed
  next
    case False
    note st' = enc_step_copy [OF fm False]
    from find_match_good [of R T "data st" bdf "moff st"] False
    have g: "ms \<le> 0x10000" "mo + ms \<le> length R" "data st + ms \<le> length T"
      "take ms (drop mo R) = take ms (drop (data st) T)"
      by (auto simp: fm good_match_def)
    have "take (data st + ms) T = take (data st) T @ take ms (drop (data st) T)"
      by (simp add: take_add)
    then have "enc_inv R T hdr (closed_ops ops lits @ [COPY mo ms]) [] (enc_step R T bdf st)"
      using flush_inv [OF inv] g False by (simp add: st' enc_inv_def)
    then show ?thesis by blast
  qed
qed

lemma grow_inv:
  "grow max_size st = Inr st' \<Longrightarrow> enc_inv R T hdr ops lits st \<Longrightarrow> enc_inv R T hdr ops lits st'"
  by (auto simp: grow_def Let_def enc_inv_def split: if_splits)

lemma encode_loop_inv:
  assumes "encode_loop R T bdf max_size st = Inr st'" "enc_inv R T hdr ops lits st"
  shows "\<exists>ops' lits'. enc_inv R T hdr ops' lits' st' \<and> data st' = length T"
  using assms
proof (induction R T bdf max_size st arbitrary: ops lits rule: encode_loop.induct)
  case (1 R T bdf max_size st)
  show ?case
  proof (cases "data st < length T")
    case False
    then have "st' = st" using 1(2) by (subst (asm) encode_loop.simps) simp
    moreover have "data st = length T" using False 1(3) by (simp add: enc_inv_def)
    ultimately show ?thesis using 1(3) by blast
  next
    case True
    define st1 where "st1 = enc_step R T bdf st"
    from 1(2) True have ok: "\<not> length (out st1) > outsize st1"
      by (subst (asm) encode_loop.simps) (auto simp: Let_def st1_def split: if_splits)
    from 1(2) True ok obtain st2 where g: "grow max_size st1 = Inr st2"
      and e: "encode_loop R T bdf max_size st2 = Inr st'"
      by (subst (asm) encode_loop.simps) (auto simp: Let_def st1_def split: sum.splits)
    from enc_step_inv [OF 1(3) True] obtain ops1 lits1 where "enc_inv R T hdr ops1 lits1 st1"
      unfolding st1_def by blast
    then have "enc_inv R T hdr ops1 lits1 st2" using g by (rule grow_inv [rotated])
    with 1(1) [OF True st1_def ok g e] show ?thesis .
  qed
qed

lemma diff_delta_ops:
  assumes "diff_delta R T max_size = Inr d"
  shows "\<exists>ops. d = put_size (put_size [] (length R)) (length T) @ concat (map op_bytes ops)
    \<and> (\<forall>op \<in> set ops. valid_op R op) \<and> concat (map (op_result R) ops) = T"
proof -
  let ?hdr = "put_size (put_size [] (length R)) (length T)"
  from assms obtain bdf osz st where
    e: "encode_loop R T bdf max_size
          \<lparr>out = ?hdr, outsize = osz, inscnt = 0, moff = 0, data = 0\<rparr> = Inr st"
    and d: "d = flush st"
    by (auto simp: diff_delta_def Let_def flush_def split: if_splits sum.splits)
  have "enc_inv R T ?hdr [] [] \<lparr>out = ?hdr, outsize = osz, inscnt = 0, moff = 0, data = 0\<rparr>"
    by (simp add: enc_inv_def)
  from encode_loop_inv [OF e this] obtain ops lits where
    inv: "enc_inv R T ?hdr ops lits st" and "data st = length T"
    by blast
  with flush_inv [OF inv] d show ?thesis by auto
qed

lemma patch_delta_ops:
  assumes "\<forall>op \<in> set ops. valid_op R op" "length R < 2 ^ 32"
  shows "patch_delta R (put_size (put_size [] (length R)) n @ concat (map op_bytes ops))
    = (if length (concat (map (op_result R) ops)) = n
       then Some (concat (map (op_result R) ops)) else None)"
  using assms
  by (simp add: patch_delta_def put_size_eq read_size_tail parse_ops_concat [of _ R]
      apply_ops_valid)

lemma length_flush: "length (flush st) = length (out st)"
  by (simp add: flush_def)

lemma enc_step_outsize: "outsize (enc_step R T bdf st) = outsize st"
  by (auto simp: enc_step_def Let_def split: prod.splits)

lemma enc_step_length:
  "length (out (enc_step R T bdf st)) \<le> length (out st) + 7"
  "length (out (enc_step R T bdf st)) + 2 * data st
     \<le> length (out st) + 2 * data (enc_step R T bdf st)"
proof -
  obtain mo ms where fm: "find_match R T bdf (data st) (moff st) = (mo, ms)"
    by (cases "find_match R T bdf (data st) (moff st)")
  show "length (out (enc_step R T bdf st)) \<le> length (out st) + 7"
  proof (cases "ms = 0 \<or> ms < COPYOP_SIZE mo ms")
    case True
    show ?thesis by (simp add: enc_step_insert [OF fm True])
  next
    case False
    show ?thesis
      using COPYOP_SIZE_le [of mo ms]
      by (simp add: enc_step_copy [OF fm False] length_flush length_emit_copy)
  qed
  show "length (out (enc_step R T bdf st)) + 2 * data st
     \<le> length (out st) + 2 * data (enc_step R T bdf st)"
  proof (cases "ms = 0 \<or> ms < COPYOP_SIZE mo ms")
    case True
    show ?thesis by (simp add: enc_step_insert [OF fm True])
  next
    case False
    then show ?thesis
      by (simp add: enc_step_copy [OF fm False] length_flush length_emit_copy)
  qed
qed

lemma grow_unbounded:
  assumes "length (out st) < outsize st" "8192 \<le> outsize st" "outsize st < 2 ^ 32"
    "length (out st) \<le> 10 + 2 * data st" "data st < 2 ^ 29"
  shows "\<exists>st'. grow 0 st = Inr st' \<and> size_inv st' \<and> out st' = out st \<and> data st' = data st"
proof -
  have m: "(outsize st + 4294967296 - MAX_OP_SIZE) mod 4294967296 = outsize st - 7"
  proof -
    have "outsize st + 4294967296 - 7 = (outsize st - 7) + 4294967296" using assms(2) by simp
    then have "(outsize st + 4294967296 - 7) mod 4294967296 = (outsize st - 7) mod 4294967296"
      by (simp only: mod_add_self2)
    then show ?thesis using assms(3) by (simp add: MAX_OP_SIZE_eq)
  qed
  show ?thesis
  proof (cases "length (out st) \<ge> outsize st - 7")
    case False
    then show ?thesis using assms by (simp add: grow_def m size_inv_def)
  next
    case True
    with assms have lt: "outsize st * 3 < 4294967296" by simp
    then have "(outsize st * 3 mod 4294967296) div 2 = outsize st * 3 div 2" by simp
    moreover have "length (out st) + 8 \<le> outsize st * 3 div 2"
      using assms(1,2) by arith
    moreover have "outsize st * 3 div 2 < 4294967296"
      using lt by arith
    moreover have "8192 \<le> outsize st * 3 div 2"
      using assms(2) by arith
    ultimately show ?thesis using True by (simp add: grow_def m size_inv_def Let_def assms(4))
  qed
qed

lemma encode_loop_total:
  assumes "enc_inv R T hdr ops lits st" "size_inv st" "length T < 2 ^ 29"
  shows "\<exists>st'. encode_loop R T bdf 0 st = Inr st'"
  using assms
proof (induction R T bdf "0::nat" st arbitrary: ops lits rule: encode_loop.induct)
  case (1 R T bdf st)
  show ?case
  proof (cases "data st < length T")
    case False
    then show ?thesis by (subst encode_loop.simps) simp
  next
    case True
    define st1 where "st1 = enc_step R T bdf st"
    from enc_step_inv [OF 1(2) True] obtain ops1 lits1 where inv1: "enc_inv R T hdr ops1 lits1 st1"
      unfolding st1_def by blast
    then have d1: "data st1 < 2 ^ 29" using 1(4) by (simp add: enc_inv_def)
    have len: "length (out st1) < outsize st1" "8192 \<le> outsize st1" "outsize st1 < 2 ^ 32"
      "length (out st1) \<le> 10 + 2 * data st1"
      using 1(3) enc_step_length [of R T bdf st] enc_step_data [of st R T bdf]
      by (simp_all add: st1_def size_inv_def enc_step_outsize)
    from grow_unbounded [OF len d1] obtain st2 where
      g: "grow 0 st1 = Inr st2" and s2: "size_inv st2" by blast
    have ok: "\<not> length (out st1) > outsize st1" using len by simp
    have inv2: "enc_inv R T hdr ops1 lits1 st2" using g inv1 by (rule grow_inv)
    from 1(1) [OF True st1_def ok g inv2 s2 1(4)] obtain st' where
      "encode_loop R T bdf 0 st2 = Inr st'" by blast
    then show ?thesis
      using True ok g by (subst encode_loop.simps) (simp add: Let_def st1_def [symmetric])
  qed
qed

lemma header_length:
  assumes "length R < 2 ^ 31" "length T < 2 ^ 29"
  shows "length (put_size (put_size [] (length R)) (length T)) \<le> 10"
proof -
  have "length (put_size [] (length R)) \<le> 5"
    using length_put_size(1) [of "length R" "[]"] assms(1) by simp
  moreover have "length (put_size (put_size [] (length R)) (length T))
      \<le> length (put_size [] (length R)) + 5"
    using assms(2) by (intro length_put_size(1)) simp
  ultimately show ?thesis by simp
qed

lemma diff_delta_total:
  assumes "R \<noteq> []" "T \<noteq> []" "length R < 2 ^ 31" "length T < 2 ^ 29"
  shows "\<exists>d. diff_delta R T 0 = Inr d"
proof -
  let ?hdr = "put_size (put_size [] (length R)) (length T)"
  let ?st = "\<lparr>out = ?hdr, outsize = 8192, inscnt = 0, moff = 0, data = 0\<rparr>"
  have h: "length ?hdr \<le> 10" using assms(3,4) by (rule header_length)
  have "enc_inv R T ?hdr [] [] ?st" by (simp add: enc_inv_def)
  moreover have "size_inv ?st" using h by (simp add: size_inv_def)
  ultimately obtain st' where "encode_loop R T (block_index R) 0 ?st = Inr st'"
    using encode_loop_total assms(4) by blast
  then show ?thesis
    using assms(1,2) h delta_prepare_in_range [OF assms(3)] by (simp add: diff_delta_def Let_def)
qed

text \<open>
  The round trip, within the sizes that the 32-bit variables of the source carry: for a
  non-empty reference \<open>R\<close> shorter than \<open>2 ^ 31\<close> bytes (its size is
  passed as an \<open>int\<close>) and a non-empty target \<open>T\<close> shorter than \<open>2 ^ 29\<close> bytes (so
  that \<open>outsize * 3\<close> stays below \<open>2 ^ 32\<close>), \<open>diff_delta\<close> with \<open>max_size = 0\<close>
  returns a delta, and applying that delta to \<open>R\<close> by the wire format of section 6 gives
  \<open>T\<close> back exactly.
\<close>

theorem diff_delta_round_trip:
  assumes "R \<noteq> []" "T \<noteq> []" "length R < 2 ^ 31" "length T < 2 ^ 29"
  shows "\<exists>delta. diff_delta R T 0 = Inr delta \<and> patch_delta R delta = Some T"
proof -
  from diff_delta_total [OF assms] obtain d where d: "diff_delta R T 0 = Inr d" by blast
  from diff_delta_ops [OF d] obtain ops where
    "d = put_size (put_size [] (length R)) (length T) @ concat (map op_bytes ops)"
    "\<forall>op \<in> set ops. valid_op R op" "concat (map (op_result R) ops) = T"
    by blast
  then have "patch_delta R d = Some T"
    using assms(3) by (simp add: patch_delta_ops)
  with d show ?thesis by blast
qed

text \<open>
  Whatever the sizes and \<open>max_size\<close>, a delta that \<open>diff_delta\<close> returns for a
  reference shorter than \<open>2 ^ 32\<close> bytes, whose offsets four bytes carry, gives the
  target back.
\<close>

lemma diff_delta_patch:
  assumes "diff_delta R T max_size = Inr delta" "length R < 2 ^ 32"
  shows "patch_delta R delta = Some T"
proof -
  from diff_delta_ops [OF assms(1)] obtain ops where
    "delta = put_size (put_size [] (length R)) (length T) @ concat (map op_bytes ops)"
    "\<forall>op \<in> set ops. valid_op R op" "concat (map (op_result R) ops) = T"
    by blast
  then show ?thesis
    using assms(2) by (simp add: patch_delta_ops)
qed

section \<open>Runs of the encoder, and the COPY opcodes it writes\<close>

lemmas index_eval = block_index_def last_block_def hashbits_def hashbits_loop.simps
  prepare_loop.simps adler32_def HASH_def GR_PRIME_def BLK_SIZE_def to_uint_def
  find_match_def Let_def replicate_num

lemma zero_ref_prepare: "delta_prepare zero_ref = Inr zero_ref_index"
proof -
  have "block_index zero_ref = zero_ref_index"
    by (simp add: index_eval zero_ref_def zero_ref_index_def)
  moreover have "length zero_ref < 2 ^ 31" by (simp add: zero_ref_def)
  ultimately show ?thesis by (simp add: delta_prepare_in_range)
qed

lemma zero_ref_match:
  "find_match zero_ref lit_copy_lit zero_ref_index 0 0 = (0, 0)"
  "find_match zero_ref lit_copy_lit zero_ref_index (Suc 0) 0 = (0, 2)"
  "find_match zero_ref lit_copy_lit zero_ref_index 3 0 = (0, Suc 0)"
  by (simp_all add: index_eval zero_ref_def lit_copy_lit_def zero_ref_index_def)

lemma lit_copy_lit_nth:
  "lit_copy_lit ! 0 = 5" "lit_copy_lit ! Suc 0 = 0" "lit_copy_lit ! 2 = 0" "lit_copy_lit ! 3 = 0"
  "length lit_copy_lit = 4" "length zero_ref = 2" "zero_ref \<noteq> []" "lit_copy_lit \<noteq> []"
  by (simp_all add: lit_copy_lit_def zero_ref_def)

lemma zero_ref_steps:
  "enc_step zero_ref lit_copy_lit zero_ref_index
     \<lparr>out = [2, 4], outsize = osz, inscnt = 0, moff = 0, data = 0\<rparr>
   = \<lparr>out = [2, 4, 0, 5], outsize = osz, inscnt = Suc 0, moff = 0, data = Suc 0\<rparr>"
  "enc_step zero_ref lit_copy_lit zero_ref_index
     \<lparr>out = [2, 4, 0, 5], outsize = osz, inscnt = Suc 0, moff = 0, data = Suc 0\<rparr>
   = \<lparr>out = [2, 4, 1, 5, 144, 2], outsize = osz, inscnt = 0, moff = 0, data = 3\<rparr>"
  "enc_step zero_ref lit_copy_lit zero_ref_index
     \<lparr>out = [2, 4, 1, 5, 144, 2], outsize = osz, inscnt = 0, moff = 0, data = 3\<rparr>
   = \<lparr>out = [2, 4, 1, 5, 144, 2, 0, 0], outsize = osz, inscnt = Suc 0, moff = 0, data = 4\<rparr>"
  by (simp_all add: enc_step_def zero_ref_match COPYOP_SIZE_def emit_copy_def put_field_def
      lit_copy_lit_nth)

lemma grow_threshold:
  assumes "7 \<le> osz" "osz < 4294967296"
  shows "(osz + 4294967296 - MAX_OP_SIZE) mod 4294967296 = osz - 7"
proof -
  have "osz + 4294967296 - 7 = (osz - 7) + 4294967296" using assms(1) by simp
  then have "(osz + 4294967296 - 7) mod 4294967296 = (osz - 7) mod 4294967296"
    by (simp only: mod_add_self2)
  then show ?thesis using assms(2) by (simp add: MAX_OP_SIZE_eq)
qed

lemma grow_idle:
  assumes "length (out st) + 7 < outsize st" "outsize st < 4294967296"
  shows "grow m st = Inr st"
proof -
  have "(outsize st + 4294967296 - MAX_OP_SIZE) mod 4294967296 = outsize st - 7"
    using assms by (intro grow_threshold) simp_all
  moreover have "\<not> outsize st - 7 \<le> length (out st)" using assms(1) by arith
  ultimately show ?thesis by (simp add: grow_def)
qed

lemma zero_ref_loop:
  "encode_loop zero_ref lit_copy_lit zero_ref_index 0
     \<lparr>out = [2, 4], outsize = 8192, inscnt = 0, moff = 0, data = 0\<rparr>
   = Inr \<lparr>out = [2, 4, 1, 5, 144, 2, 0, 0], outsize = 8192, inscnt = Suc 0, moff = 0, data = 4\<rparr>"
  apply (subst encode_loop.simps, simp add: zero_ref_steps grow_idle lit_copy_lit_nth)
  apply (subst encode_loop.simps, simp add: zero_ref_steps grow_idle lit_copy_lit_nth)
  apply (subst encode_loop.simps, simp add: zero_ref_steps grow_idle lit_copy_lit_nth)
  apply (subst encode_loop.simps, simp add: lit_copy_lit_nth)
  done

lemma zero_ref_header: "put_size (put_size [] 2) 4 = [2, 4]"
  by (simp add: put_size_eq size_tail.simps)

lemma zero_ref_delta: "diff_delta zero_ref lit_copy_lit 0 = Inr [2, 4, 1, 5, 144, 2, 1, 0]"
  by (simp add: diff_delta_def zero_ref_prepare zero_ref_header zero_ref_loop lit_copy_lit_nth)

text \<open>The round trip on that run.\<close>

theorem diff_delta_round_trip_witness:
  "diff_delta [0, 0] [5, 0, 0, 0] 0 = Inr [2, 4, 1, 5, 144, 2, 1, 0]
   \<and> patch_delta [0, 0] [2, 4, 1, 5, 144, 2, 1, 0] = Some [5, 0, 0, 0]"
  using diff_delta_round_trip [of zero_ref lit_copy_lit] zero_ref_delta
  by (simp add: lit_copy_lit_nth) (simp add: zero_ref_def lit_copy_lit_def)

lemma delta_opcodes_ops:
  assumes "\<forall>op \<in> set ops. valid_op R op"
  shows "delta_opcodes (put_size (put_size [] n) k @ concat (map op_bytes ops))
    = Some (map wire_op ops)"
  using assms
  by (simp add: delta_opcodes_def put_size_eq read_size_tail parse_ops_wire [of _ R])

lemma wire_op_copy:
  assumes "COPY off sz \<in> set (map wire_op ops)"
  obtains off' where "COPY off' sz \<in> set ops" "off \<le> off'"
proof -
  from assms obtain op where op: "op \<in> set ops" "wire_op op = COPY off sz" by auto
  from op(2) obtain off' where o: "op = COPY off' sz" "off = off' mod 2 ^ 32"
    by (cases op) auto
  have "off \<le> off'" unfolding o(2) by (rule mod_less_eq_dividend)
  with op(1) o(1) that [of off'] show ?thesis by simp
qed

text \<open>
  Claim C2: whenever \<open>diff_delta\<close> returns a delta for non-empty \<open>R\<close> and \<open>T\<close>, of
  any size and for any \<open>max_size\<close>, the delta is a header followed by well-formed
  opcodes, and every COPY opcode \<open>(off, size)\<close> among them has \<open>off + size \<le> |R|\<close>.
  (A run in which the behaviour of the source is undefined returns no delta.)
\<close>

theorem copy_within_reference:
  assumes "R \<noteq> []" "T \<noteq> []" "diff_delta R T max_size = Inr delta"
  shows "\<exists>ops. delta_opcodes delta = Some ops
    \<and> (\<forall>off sz. COPY off sz \<in> set ops \<longrightarrow> off + sz \<le> length R)"
proof -
  from diff_delta_ops [OF assms(3)] obtain ops where
    d: "delta = put_size (put_size [] (length R)) (length T) @ concat (map op_bytes ops)"
    and v: "\<forall>op \<in> set ops. valid_op R op"
    by blast
  from v have "delta_opcodes delta = Some (map wire_op ops)"
    unfolding d by (rule delta_opcodes_ops)
  moreover have "off + sz \<le> length R" if "COPY off sz \<in> set (map wire_op ops)" for off sz
  proof -
    from that obtain off' where o: "COPY off' sz \<in> set ops" "off \<le> off'"
      by (rule wire_op_copy)
    with v have "off' + sz \<le> length R" by force
    with o(2) show ?thesis by simp
  qed
  ultimately show ?thesis by blast
qed

theorem copy_within_reference_witness:
  "diff_delta [0, 0] [5, 0, 0, 0] 0 = Inr [2, 4, 1, 5, 144, 2, 1, 0]
   \<and> delta_opcodes [2, 4, 1, 5, 144, 2, 1, 0] = Some [INSERT [5], COPY 0 2, INSERT [0]]
   \<and> 0 + 2 \<le> length [0 :: byte, 0]"
proof -
  have r: "read_op [1, 5, 144, 2, 1, 0] = Some (INSERT [5], [144, 2, 1, 0])"
    "read_op [144, 2, 1, 0] = Some (COPY 0 2, [1, 0])"
    "read_op [1, 0] = Some (INSERT [0], [])"
    by (simp_all add: read_op_def read_copy_def read_field_def)
  have p: "delta_opcodes [2, 4, 1, 5, 144, 2, 1, 0] = Some [INSERT [5], COPY 0 2, INSERT [0]]"
    by (simp add: delta_opcodes_def parse_ops.simps r)
  from copy_within_reference [of zero_ref lit_copy_lit 0, OF _ _ zero_ref_delta]
  obtain ops where "delta_opcodes [2, 4, 1, 5, 144, 2, 1, 0] = Some ops"
    "\<forall>off sz. COPY off sz \<in> set ops \<longrightarrow> off + sz \<le> length zero_ref"
    by (auto simp: lit_copy_lit_nth)
  with p have "0 + 2 \<le> length zero_ref" by auto
  with p zero_ref_delta show ?thesis by (simp add: zero_ref_def lit_copy_lit_def)
qed

section \<open>The length of the delta\<close>

lemma diff_delta_run:
  assumes "diff_delta R T max_size = Inr d"
  obtains bdf osz st where
    "delta_prepare R = Inr bdf"
    and "encode_loop R T bdf max_size
       \<lparr>out = put_size (put_size [] (length R)) (length T), outsize = osz, inscnt = 0,
        moff = 0, data = 0\<rparr> = Inr st"
    and "d = flush st"
  using assms
  by (auto simp: diff_delta_def Let_def flush_def split: if_splits sum.splits)

lemma grow_cases:
  assumes "grow max_size st = Inr st'"
  shows "st' = st \<or> (\<exists>osz. st' = st\<lparr>outsize := osz\<rparr>)"
  using assms by (auto simp: grow_def Let_def split: if_splits)

lemma encode_loop_rule:
  assumes "encode_loop R T bdf max_size st = Inr st'" and "P st"
    and step: "\<And>s. P s \<Longrightarrow> data s < length T \<Longrightarrow> P (enc_step R T bdf s)"
    and resize: "\<And>s osz. P s \<Longrightarrow> P (s\<lparr>outsize := osz\<rparr>)"
  shows "P st'"
  using assms
proof (induction R T bdf max_size st rule: encode_loop.induct)
  case (1 R T bdf max_size st)
  show ?case
  proof (cases "data st < length T")
    case False
    then have "st' = st" using 1(2) by (subst (asm) encode_loop.simps) simp
    with 1(3) show ?thesis by simp
  next
    case True
    define st1 where "st1 = enc_step R T bdf st"
    from 1(2) True have ok: "\<not> length (out st1) > outsize st1"
      by (subst (asm) encode_loop.simps) (auto simp: Let_def st1_def split: if_splits)
    from 1(2) True ok obtain st2 where g: "grow max_size st1 = Inr st2"
      and e: "encode_loop R T bdf max_size st2 = Inr st'"
      by (subst (asm) encode_loop.simps) (auto simp: Let_def st1_def split: sum.splits)
    have "P st1" unfolding st1_def using 1(3) True by (rule 1(4))
    then have "P st2" using grow_cases [OF g] 1(5) by auto
    with 1(1) [OF True st1_def ok g e] 1(4,5) show ?thesis by blast
  qed
qed

lemma copy_at_least_2:
  assumes "\<not> (ms = 0 \<or> ms < COPYOP_SIZE mo ms)"
  shows "2 \<le> ms" "COPYOP_SIZE mo ms \<le> ms"
proof -
  show "COPYOP_SIZE mo ms \<le> ms" using assms by simp
  show "2 \<le> ms"
  proof (rule ccontr)
    assume "\<not> 2 \<le> ms"
    with assms have "ms = 1" by simp
    moreover have "2 \<le> COPYOP_SIZE mo 1" by (simp add: COPYOP_SIZE_def)
    ultimately show False using assms by simp
  qed
qed

lemma enc_step_potential:
  assumes "potential h st"
  shows "potential h (enc_step R T bdf st)"
proof -
  obtain mo ms where fm: "find_match R T bdf (data st) (moff st) = (mo, ms)"
    by (cases "find_match R T bdf (data st) (moff st)")
  show ?thesis
  proof (cases "ms = 0 \<or> ms < COPYOP_SIZE mo ms")
    case True
    show ?thesis
      using assms by (auto simp: enc_step_insert [OF fm True] potential_def)
  next
    case False
    from copy_at_least_2 [OF False] assms show ?thesis
      by (auto simp: enc_step_copy [OF fm False] potential_def length_flush length_emit_copy
          split: if_splits)
  qed
qed

lemma diff_delta_length:
  assumes "diff_delta R T max_size = Inr d"
  shows "length d \<le> length T + (length T + 2) div 3
    + length (put_size (put_size [] (length R)) (length T))"
proof -
  let ?hdr = "put_size (put_size [] (length R)) (length T)"
  from assms obtain bdf osz st where
    e: "encode_loop R T bdf max_size
          \<lparr>out = ?hdr, outsize = osz, inscnt = 0, moff = 0, data = 0\<rparr> = Inr st"
    and d: "d = flush st"
    by (rule diff_delta_run)
  have "enc_inv R T ?hdr [] [] \<lparr>out = ?hdr, outsize = osz, inscnt = 0, moff = 0, data = 0\<rparr>"
    by (simp add: enc_inv_def)
  from encode_loop_inv [OF e this] have dt: "data st = length T" by blast
  have "potential (length ?hdr) st"
    using e
  proof (rule encode_loop_rule)
    show "potential (length ?hdr) \<lparr>out = ?hdr, outsize = osz, inscnt = 0, moff = 0, data = 0\<rparr>"
      by (simp add: potential_def)
    show "potential (length ?hdr) (enc_step R T bdf s)"
      if "potential (length ?hdr) s" for s
      using that by (rule enc_step_potential)
    show "potential (length ?hdr) (s\<lparr>outsize := osz\<rparr>)"
      if "potential (length ?hdr) s" for s osz
      using that by (simp add: potential_def)
  qed
  then have "3 * length d \<le> 3 * length ?hdr + 4 * length T + 2"
    by (auto simp: potential_def d length_flush dt split: if_splits)
  then show ?thesis by arith
qed

text \<open>
  Claim C8, as amended: for non-empty \<open>R\<close> and \<open>T\<close> (\<open>R\<close> shorter than \<open>2 ^ 31\<close>
  bytes and \<open>T\<close> shorter than \<open>2 ^ 29\<close> bytes, the sizes that the 32-bit variables of
  the source carry) and \<open>max_size = 0\<close>, the delta is at most \<open>|T| + \<lceil>|T| / 3\<rceil> + header_size\<close> bytes long,
  where \<open>header_size\<close> is the length of the two header integers: an INSERT run costs one
  byte beyond its literals, and a run can be as short as one literal between two COPYs of
  two bytes each, which cost two bytes each.
\<close>

theorem delta_length_bound:
  assumes "R \<noteq> []" "T \<noteq> []" "length R < 2 ^ 31" "length T < 2 ^ 29"
  shows "\<exists>delta. diff_delta R T 0 = Inr delta
    \<and> length delta \<le> length T + (length T + 2) div 3
        + length (put_size (put_size [] (length R)) (length T))"
proof -
  from diff_delta_total [OF assms] obtain d where d: "diff_delta R T 0 = Inr d" by blast
  from diff_delta_length [OF d] d show ?thesis by blast
qed

theorem delta_length_bound_witness:
  "diff_delta [0, 0] [5, 0, 0, 0] 0 = Inr [2, 4, 1, 5, 144, 2, 1, 0]
   \<and> length [2 :: byte, 4, 1, 5, 144, 2, 1, 0]
       \<le> 4 + (4 + 2) div 3 + length (put_size (put_size [] 2) 4)"
  using delta_length_bound [of zero_ref lit_copy_lit] zero_ref_delta
  by (simp add: lit_copy_lit_nth) (simp add: zero_ref_def lit_copy_lit_def)

text \<open>
  Claim C8 as stated fails on that run: the delta has 8 bytes, and
  \<open>|T| + \<lceil>|T| / 127\<rceil> + header_size = 4 + 1 + 2 = 7\<close>.
\<close>

theorem insert_overhead_counterexample:
  "diff_delta [0, 0] [5, 0, 0, 0] 0 = Inr [2, 4, 1, 5, 144, 2, 1, 0]
   \<and> \<not> length [2 :: byte, 4, 1, 5, 144, 2, 1, 0]
       \<le> 4 + (4 + 126) div 127 + length (put_size (put_size [] 2) 4)"
  using zero_ref_delta by (simp add: zero_ref_def lit_copy_lit_def zero_ref_header)

section \<open>The choice between INSERT and COPY\<close>

lemma upt_4: "[0..<4] = [0, 1, 2, 3]" "[0..<2] = [0, 1]"
  by (simp_all add: upt_rec)

lemma count_filter:
  "length (filter P [a, b, c, d]) = of_bool (P a) + of_bool (P b) + of_bool (P c) + of_bool (P d)"
  "length (filter P [a, b]) = of_bool (P a) + of_bool (P b)"
  by simp_all

lemma byte_of_and:
  "(v AND 0xff \<noteq> 0) = (byte_of v 0 \<noteq> 0)" "(v AND 0xff00 \<noteq> 0) = (byte_of v 1 \<noteq> 0)"
  "(v AND 0xff0000 \<noteq> 0) = (byte_of v 2 \<noteq> 0)" "(v AND 0xff000000 \<noteq> 0) = (byte_of v 3 \<noteq> 0)"
  by (simp_all add: byte_of_def and_ff and_ff00 and_ff0000 and_ff000000)

lemma COPYOP_SIZE_cost: "COPYOP_SIZE off sz = cost off sz"
  unfolding COPYOP_SIZE_def cost_def upt_4 count_filter byte_of_and by simp

lemma cost_positive: "1 \<le> cost off sz"
  by (simp add: cost_def)

lemma op_byte_copy: "bit (hd (op_bytes (COPY off sz))) 7"
  by (simp add: emit_copy_eq op_byte_bits)

text \<open>
  Claim C7: in an iteration whose search ends with \<open>(moff, msize)\<close>, the INSERT path is
  taken exactly when \<open>msize\<close> is 0 or strictly below \<open>cost(moff, msize)\<close>, the cost being
  the one of the specification, which the macro \<open>COPYOP_SIZE\<close> computes. On the INSERT
  path one target byte is consumed and written as the last byte of the output; otherwise
  a COPY opcode of \<open>cost(moff, msize)\<close> bytes is written at the old \<open>outpos\<close> and
  \<open>msize\<close> target bytes are consumed; in particular \<open>msize = cost(moff, msize)\<close> gives a
  COPY.
\<close>

theorem insert_exactly_when_cheaper:
  assumes "find_match R T bdf (data st) (moff st) = (mo, ms)"
    and "inscnt st < length (out st)"
  shows "COPYOP_SIZE mo ms = cost mo ms
    \<and> (if ms = 0 \<or> ms < cost mo ms
        then data (enc_step R T bdf st) = data st + 1
          \<and> last (out (enc_step R T bdf st)) = T ! data st
          \<and> length (out (enc_step R T bdf st))
              = length (out st) + (if inscnt st = 0 then 2 else 1)
        else data (enc_step R T bdf st) = data st + ms
          \<and> bit (out (enc_step R T bdf st) ! length (out st)) 7
          \<and> length (out (enc_step R T bdf st)) = length (out st) + cost mo ms)
    \<and> ((data (enc_step R T bdf st) = data st + 1) = (ms = 0 \<or> ms < cost mo ms))
    \<and> (ms = cost mo ms \<longrightarrow> bit (out (enc_step R T bdf st) ! length (out st)) 7)"
proof (cases "ms = 0 \<or> ms < COPYOP_SIZE mo ms")
  case True
  note st' = enc_step_insert [OF assms(1) True]
  have "last (out (enc_step R T bdf st)) = T ! data st"
  proof (cases "inscnt st = 126")
    case full: True
    then have "length (out st) - 127 < length (out st)" using assms(2) by simp
    then have "(out st @ [T ! data st])[length (out st) - 127 := 127]
        = (out st)[length (out st) - 127 := 127] @ [T ! data st]"
      by (simp add: list_update_append)
    then show ?thesis using full by (simp add: st')
  next
    case False
    then show ?thesis by (simp add: st')
  qed
  moreover have "ms \<noteq> cost mo ms"
    using True cost_positive [of mo ms] by (auto simp: COPYOP_SIZE_cost)
  moreover have "data (enc_step R T bdf st) = data st + 1"
    "length (out (enc_step R T bdf st)) = length (out st) + (if inscnt st = 0 then 2 else 1)"
    by (simp_all add: st')
  ultimately show ?thesis
    using True by (simp add: COPYOP_SIZE_cost)
next
  case False
  note st' = enc_step_copy [OF assms(1) False]
  have "out (enc_step R T bdf st) ! length (out st) = hd (op_bytes (COPY mo ms))"
    using op_bytes_nonempty [of "COPY mo ms"]
    by (simp add: st' nth_append length_flush hd_conv_nth)
  then have "bit (out (enc_step R T bdf st) ! length (out st)) 7"
    by (simp only: op_byte_copy)
  moreover have "length (out (enc_step R T bdf st)) = length (out st) + cost mo ms"
    by (simp add: st' length_flush length_emit_copy COPYOP_SIZE_cost)
  moreover have "data (enc_step R T bdf st) = data st + ms" by (simp add: st')
  moreover have "2 \<le> ms" using False by (rule copy_at_least_2)
  ultimately show ?thesis
    using False by (simp add: COPYOP_SIZE_cost)
qed

theorem insert_exactly_when_cheaper_witness:
  "find_match zero_ref lit_copy_lit zero_ref_index 1 0 = (0, 2) \<and> cost 0 2 = 2
   \<and> data (enc_step zero_ref lit_copy_lit zero_ref_index
        \<lparr>out = [2, 4, 0, 5], outsize = 8192, inscnt = 1, moff = 0, data = 1\<rparr>) = 3"
proof -
  let ?S = "\<lparr>out = [2, 4, 0, 5], outsize = 8192, inscnt = Suc 0, moff = 0, data = Suc 0\<rparr>"
  have c: "cost 0 2 = 2" by (simp add: cost_def byte_of_def upt_4)
  have fm: "find_match zero_ref lit_copy_lit zero_ref_index (data ?S) (moff ?S) = (0, 2)"
    by (simp add: zero_ref_match)
  have h: "inscnt ?S < length (out ?S)" by simp
  from insert_exactly_when_cheaper [OF fm h] c
  have "data (enc_step zero_ref lit_copy_lit zero_ref_index ?S) = data ?S + 2"
    by simp
  then show ?thesis using c zero_ref_match(2) by simp
qed

section \<open>The order of a chain and the match that is selected\<close>

lemma HASH_less:
  assumes "b \<le> 32"
  shows "HASH v b < 2 ^ b"
proof -
  have "unat (v * GR_PRIME) < 2 ^ 32"
    using unsigned_less [of "v * GR_PRIME", where 'a = nat] by simp
  also have "(2::nat) ^ 32 = 2 ^ b * 2 ^ (32 - b)"
    using assms by (simp add: power_add [symmetric])
  finally have "unat (v * GR_PRIME) div 2 ^ (32 - b) < 2 ^ b"
    by (rule less_mult_imp_div_less)
  moreover have "HASH v b = drop_bit (32 - b) (unat (v * GR_PRIME))"
    by (simp only: HASH_def unat_drop_bit_eq)
  ultimately show ?thesis
    by (simp only: drop_bit_eq_div)
qed

lemma chains_above_update:
  assumes "chains_above pos hash" "0 \<le> pos" "ptr brec = nat pos" "0 < k"
  shows "chains_above (pos - k) (hash[i := brec # hash ! i])"
proof (cases "i < length hash")
  case False
  then have "hash[i := brec # hash ! i] = hash" by (simp add: list_update_beyond)
  then show ?thesis using assms by (fastforce simp: chains_above_def)
next
  case True
  have "sorted_wrt (<) (map ptr chain) \<and> (\<forall>b \<in> set chain. pos - k < int (ptr b))"
    if "chain \<in> set (hash[i := brec # hash ! i])" for chain
  proof -
    from that consider "chain \<in> set hash" | "chain = brec # hash ! i"
      using set_update_subset_insert [of hash i "brec # hash ! i"] by auto
    then show ?thesis
    proof cases
      case 1
      with assms show ?thesis by (fastforce simp: chains_above_def)
    next
      case 2
      have "hash ! i \<in> set hash" using True by simp
      with assms 2 show ?thesis by (fastforce simp: chains_above_def)
    qed
  qed
  then show ?thesis by (simp add: chains_above_def)
qed

lemma prepare_loop_sorted:
  assumes "chains_above pos hash"
  shows "\<forall>chain \<in> set (prepare_loop buf bufsize hbits pos hash). sorted_wrt (<) (map ptr chain)"
  using assms
proof (induction buf bufsize hbits pos hash rule: prepare_loop.induct)
  case (1 buf bufsize hbits pos hash)
  show ?case
  proof (cases "0 \<le> pos")
    case False
    then show ?thesis
      using 1(2) by (subst prepare_loop.simps) (simp add: chains_above_def)
  next
    case True
    define brec where "brec = \<lparr>fp = adler32 0
      (take (to_uint (if int BLK_SIZE < bufsize - pos then int BLK_SIZE else bufsize - pos))
         (drop (nat pos) buf)), ptr = nat pos\<rparr>"
    define i where "i = HASH (fp brec) hbits"
    have "chains_above (pos - int BLK_SIZE) (hash[i := brec # hash ! i])"
      using 1(2) True by (intro chains_above_update) (simp_all add: brec_def BLK_SIZE_def)
    from 1(1) [OF True brec_def i_def this] show ?thesis
      using True by (subst prepare_loop.simps) (simp add: Let_def brec_def i_def)
  qed
qed

lemma delta_prepare_sorted:
  assumes "delta_prepare R = Inr bdf"
  shows "\<forall>chain \<in> set (fphash bdf). sorted_wrt (<) (map ptr chain)"
proof -
  have "\<forall>chain \<in> set (prepare_loop R bs hb pos (replicate n [])). sorted_wrt (<) (map ptr chain)"
    for bs hb pos n
    by (rule prepare_loop_sorted) (simp add: chains_above_def)
  then show ?thesis
    using assms by (auto simp: delta_prepare_def Let_def split: if_splits)
qed

lemma block_index_sorted:
  "\<forall>chain \<in> set (fphash (block_index R)). sorted_wrt (<) (map ptr chain)"
proof -
  have "\<forall>chain \<in> set (prepare_loop R bs hb pos (replicate n [])). sorted_wrt (<) (map ptr chain)"
    for bs hb pos n
    by (rule prepare_loop_sorted) (simp add: chains_above_def)
  then show ?thesis by (simp add: block_index_def)
qed

lemma walk_chain_selects:
  assumes "walk_chain R T d f chain (mo0, ms0) = (mo, ms)" "ms0 < 0x10000"
  shows "(mo = mo0 \<and> ms = ms0 \<and> (\<forall>b \<in> set chain. fp b = f \<longrightarrow> match_at R T d (ptr b) \<le> ms0))
    \<or> (ms0 < ms \<and> (\<exists>pre b post. chain = pre @ b # post \<and> ptr b = mo \<and> fp b = f
          \<and> ms = min (match_at R T d mo) 0x10000
          \<and> (\<forall>b' \<in> set pre. fp b' = f \<longrightarrow> match_at R T d (ptr b') < ms)))"
  using assms
proof (induction chain arbitrary: mo0 ms0)
  case Nil
  then show ?case by simp
next
  case (Cons brec chain)
  let ?c = "match_at R T d (ptr brec)"
  show ?case
  proof (cases "fp brec = f \<and> ms0 < ?c")
    case False
    then have w: "walk_chain R T d f chain (mo0, ms0) = (mo, ms)"
      using Cons.prems(1) by (auto simp: match_at_def Let_def split: if_splits)
    from Cons.IH [OF w Cons.prems(2)] show ?thesis
    proof
      assume "mo = mo0 \<and> ms = ms0
        \<and> (\<forall>b \<in> set chain. fp b = f \<longrightarrow> match_at R T d (ptr b) \<le> ms0)"
      with False show ?thesis by auto
    next
      assume a: "ms0 < ms \<and> (\<exists>pre b post. chain = pre @ b # post \<and> ptr b = mo \<and> fp b = f
          \<and> ms = min (match_at R T d mo) 0x10000
          \<and> (\<forall>b' \<in> set pre. fp b' = f \<longrightarrow> match_at R T d (ptr b') < ms))"
      then obtain pre b post where p: "chain = pre @ b # post" "ptr b = mo" "fp b = f"
        "ms = min (match_at R T d mo) 0x10000"
        "\<forall>b' \<in> set pre. fp b' = f \<longrightarrow> match_at R T d (ptr b') < ms"
        by blast
      have "brec # chain = (brec # pre) @ b # post" using p(1) by simp
      moreover have "\<forall>b' \<in> set (brec # pre). fp b' = f \<longrightarrow> match_at R T d (ptr b') < ms"
        using p(5) False a by auto
      ultimately show ?thesis using a p(2,3,4) by blast
    qed
  next
    case True
    show ?thesis
    proof (cases "?c \<ge> 0x10000")
      case big: True
      then have "(mo, ms) = (ptr brec, 0x10000)"
        using Cons.prems(1) True by (simp add: match_at_def Let_def)
      then have "brec # chain = [] @ brec # chain \<and> ptr brec = mo \<and> fp brec = f
          \<and> ms = min (match_at R T d mo) 0x10000"
        using True big by auto
      moreover have "ms0 < ms" using \<open>(mo, ms) = (ptr brec, 0x10000)\<close> Cons.prems(2) by simp
      ultimately show ?thesis by (metis empty_iff list.set(1))
    next
      case small: False
      then have w: "walk_chain R T d f chain (ptr brec, ?c) = (mo, ms)" and c: "?c < 0x10000"
        using Cons.prems(1) True by (simp_all add: match_at_def Let_def)
      from Cons.IH [OF w c] show ?thesis
      proof
        assume "mo = ptr brec \<and> ms = ?c
          \<and> (\<forall>b \<in> set chain. fp b = f \<longrightarrow> match_at R T d (ptr b) \<le> ?c)"
        then have "brec # chain = [] @ brec # chain \<and> ptr brec = mo \<and> fp brec = f
            \<and> ms = min (match_at R T d mo) 0x10000 \<and> ms0 < ms"
          using True c by auto
        then show ?thesis by (metis empty_iff list.set(1))
      next
        assume a: "?c < ms \<and> (\<exists>pre b post. chain = pre @ b # post \<and> ptr b = mo \<and> fp b = f
            \<and> ms = min (match_at R T d mo) 0x10000
            \<and> (\<forall>b' \<in> set pre. fp b' = f \<longrightarrow> match_at R T d (ptr b') < ms))"
        then obtain pre b post where p: "chain = pre @ b # post" "ptr b = mo" "fp b = f"
          "ms = min (match_at R T d mo) 0x10000"
          "\<forall>b' \<in> set pre. fp b' = f \<longrightarrow> match_at R T d (ptr b') < ms"
          by blast
        have "brec # chain = (brec # pre) @ b # post" using p(1) by simp
        moreover have "\<forall>b' \<in> set (brec # pre). fp b' = f \<longrightarrow> match_at R T d (ptr b') < ms"
          using p(5) a by auto
        moreover have "ms0 < ms" using a True by simp
        ultimately show ?thesis using p(2,3,4) by blast
      qed
    qed
  qed
qed

lemma sorted_before:
  assumes "sorted_wrt (<) (map ptr (pre @ b # post))" "b' \<in> set (pre @ b # post)"
    "ptr b' < ptr b"
  shows "b' \<in> set pre"
proof -
  have "\<forall>x \<in> set post. ptr b < ptr x"
    using assms(1) by (simp add: sorted_wrt_append)
  with assms(2,3) show ?thesis by auto
qed

lemma find_match_walk:
  "find_match R T bdf d mo0
     = walk_chain R T d (block_fp T d) (probed_chain bdf T d) (mo0, 0)"
  by (simp add: find_match_def probed_chain_def block_fp_def Let_def)

lemma probed_chain_member:
  assumes "length R < 2 ^ 31"
  shows "probed_chain (block_index R) T d \<in> set (fphash (block_index R))"
proof -
  have "fphbits (block_index R) \<le> 32"
    using block_index_bits(2) [OF assms] by simp
  then have "HASH (block_fp T d) (fphbits (block_index R)) < 2 ^ fphbits (block_index R)"
    by (rule HASH_less)
  then show ?thesis
    unfolding probed_chain_def by (simp add: length_fphash_block_index)
qed

text \<open>
  Claim C4, as amended: in the block index built by \<open>delta_prepare\<close>, every bucket
  chain lists its records in ascending order of their reference positions (the index is
  built from the last block down and each record is put in front of its chain), so the
  walk meets lower offsets first; the match the search selects is a longest one (up to the
  cap \<open>0x10000\<close>) among the records of the chain with the target block's fingerprint, and
  every such record at a lower reference offset has a strictly shorter match: ties on
  length favour earlier reference positions.
\<close>

theorem chains_ascending_earliest_match:
  assumes "R \<noteq> []" "length R < 2 ^ 31"
  shows "\<exists>bdf. delta_prepare R = Inr bdf
    \<and> (\<forall>chain \<in> set (fphash bdf). sorted_wrt (<) (map ptr chain))
    \<and> (\<forall>T d mo0 mo ms. find_match R T bdf d mo0 = (mo, ms) \<and> 0 < ms \<longrightarrow>
          (\<exists>b \<in> set (probed_chain bdf T d). ptr b = mo \<and> fp b = block_fp T d
             \<and> ms = min (match_at R T d mo) 0x10000)
          \<and> (\<forall>b \<in> set (probed_chain bdf T d). fp b = block_fp T d \<and> ptr b < mo
                \<longrightarrow> match_at R T d (ptr b) < ms))"
proof -
  let ?bdf = "block_index R"
  have sel: "(\<exists>b \<in> set (probed_chain ?bdf T d). ptr b = mo \<and> fp b = block_fp T d
             \<and> ms = min (match_at R T d mo) 0x10000)
          \<and> (\<forall>b \<in> set (probed_chain ?bdf T d). fp b = block_fp T d \<and> ptr b < mo
                \<longrightarrow> match_at R T d (ptr b) < ms)"
    if fm: "find_match R T ?bdf d mo0 = (mo, ms)" and pos: "0 < ms" for T d mo0 mo ms
  proof -
    let ?chain = "probed_chain ?bdf T d" and ?f = "block_fp T d"
    have srt: "sorted_wrt (<) (map ptr ?chain)"
      using block_index_sorted probed_chain_member [OF assms(2)] by blast
    have "walk_chain R T d ?f ?chain (mo0, 0) = (mo, ms)"
      using fm by (simp only: find_match_walk)
    from walk_chain_selects [OF this] pos obtain pre b post where
      p: "?chain = pre @ b # post" "ptr b = mo" "fp b = ?f"
        "ms = min (match_at R T d mo) 0x10000"
        "\<forall>b' \<in> set pre. fp b' = ?f \<longrightarrow> match_at R T d (ptr b') < ms"
      by auto
    have "match_at R T d (ptr b') < ms"
      if "b' \<in> set ?chain" "fp b' = ?f" "ptr b' < mo" for b'
    proof -
      have "b' \<in> set pre"
        using srt that(1,3) unfolding p(1) p(2) [symmetric] by (rule sorted_before)
      with p(5) that(2) show ?thesis by blast
    qed
    moreover have "\<exists>b \<in> set ?chain. ptr b = mo \<and> fp b = ?f
        \<and> ms = min (match_at R T d mo) 0x10000"
      using p(1,2,3,4) by auto
    ultimately show ?thesis by blast
  qed
  have "delta_prepare R = Inr ?bdf" using assms(2) by (rule delta_prepare_in_range)
  moreover have "\<forall>chain \<in> set (fphash ?bdf). sorted_wrt (<) (map ptr chain)"
    by (rule block_index_sorted)
  moreover have "\<forall>T d mo0 mo ms. find_match R T ?bdf d mo0 = (mo, ms) \<and> 0 < ms \<longrightarrow>
          (\<exists>b \<in> set (probed_chain ?bdf T d). ptr b = mo \<and> fp b = block_fp T d
             \<and> ms = min (match_at R T d mo) 0x10000)
          \<and> (\<forall>b \<in> set (probed_chain ?bdf T d). fp b = block_fp T d \<and> ptr b < mo
                \<longrightarrow> match_at R T d (ptr b) < ms)"
    using sel by blast
  ultimately show ?thesis by (intro exI [of _ ?bdf] conjI)
qed

lemma hashbits_3: "hashbits 3 = 2"
  by (simp add: hashbits_def hashbits_loop.simps)

lemma two_blocks_index:
  "block_index two_blocks
     = \<lparr>fphbits = 2, fphash = [[\<lparr>fp = 0, ptr = 0\<rparr>, \<lparr>fp = 0, ptr = 16\<rparr>], [], [], []]\<rparr>"
proof -
  have "replicate 4 ([] :: bdrecord list) = [[], [], [], []]"
    by (simp add: replicate_num)
  then show ?thesis
    by (simp add: block_index_def last_block_def two_blocks_def BLK_SIZE_def hashbits_3
        prepare_loop_zeros prepare_loop_stop)
qed

lemma match_run_zeros:
  "c \<le> n \<Longrightarrow> c \<le> m \<Longrightarrow> match_run c (replicate n 0) (replicate m 0) = c"
proof (induction c arbitrary: n m)
  case 0
  then show ?case by (cases n; cases m) simp_all
next
  case (Suc c)
  then obtain n' m' where "n = Suc n'" "m = Suc m'" by (cases n; cases m) simp_all
  with Suc show ?case by simp
qed

lemma two_blocks_match:
  "find_match two_blocks one_block (block_index two_blocks) 0 0 = (0, 16)"
  "match_at two_blocks one_block 0 0 = 16" "match_at two_blocks one_block 0 16 = 16"
  unfolding two_blocks_index
  by (simp_all add: find_match_def match_at_def to_uint_def two_blocks_def one_block_def
      adler32_zeros HASH_0 match_run_zeros BLK_SIZE_def)

lemma two_blocks_prepare:
  "delta_prepare two_blocks
     = Inr \<lparr>fphbits = 2, fphash = [[\<lparr>fp = 0, ptr = 0\<rparr>, \<lparr>fp = 0, ptr = 16\<rparr>], [], [], []]\<rparr>"
proof -
  have "length two_blocks < 2 ^ 31" by (simp add: two_blocks_def)
  then show ?thesis by (simp add: delta_prepare_in_range two_blocks_index)
qed

theorem chains_ascending_earliest_match_witness:
  "delta_prepare two_blocks
     = Inr \<lparr>fphbits = 2, fphash = [[\<lparr>fp = 0, ptr = 0\<rparr>, \<lparr>fp = 0, ptr = 16\<rparr>], [], [], []]\<rparr>
   \<and> find_match two_blocks one_block
       \<lparr>fphbits = 2, fphash = [[\<lparr>fp = 0, ptr = 0\<rparr>, \<lparr>fp = 0, ptr = 16\<rparr>], [], [], []]\<rparr> 0 0
     = (0, 16)
   \<and> sorted_wrt (<) (map ptr [\<lparr>fp = 0, ptr = 0\<rparr>, \<lparr>fp = 0 :: u32, ptr = 16\<rparr>])
   \<and> (16 :: nat) = min (match_at two_blocks one_block 0 0) 0x10000"
proof -
  let ?bdf = "\<lparr>fphbits = 2, fphash = [[\<lparr>fp = 0, ptr = 0\<rparr>, \<lparr>fp = 0, ptr = 16\<rparr>], [], [], []]\<rparr>"
  have fm: "find_match two_blocks one_block ?bdf 0 0 = (0, 16)"
    using two_blocks_match(1) by (simp only: two_blocks_index)
  have "two_blocks \<noteq> []" "length two_blocks < 2 ^ 31"
    by (simp_all add: two_blocks_def)
  from chains_ascending_earliest_match [OF this] obtain bdf where
    b: "delta_prepare two_blocks = Inr bdf"
      "\<forall>chain \<in> set (fphash bdf). sorted_wrt (<) (map ptr chain)"
      "\<forall>T d mo0 mo ms. find_match two_blocks T bdf d mo0 = (mo, ms) \<and> 0 < ms \<longrightarrow>
          (\<exists>b \<in> set (probed_chain bdf T d). ptr b = mo \<and> fp b = block_fp T d
             \<and> ms = min (match_at two_blocks T d mo) 0x10000)
          \<and> (\<forall>b \<in> set (probed_chain bdf T d). fp b = block_fp T d \<and> ptr b < mo
                \<longrightarrow> match_at two_blocks T d (ptr b) < ms)"
    by blast
  from b(1) have e: "bdf = ?bdf" by (simp add: two_blocks_prepare)
  have "sorted_wrt (<) (map ptr [\<lparr>fp = 0, ptr = 0\<rparr>, \<lparr>fp = 0 :: u32, ptr = 16\<rparr>])"
    using b(2) unfolding e by simp
  moreover have "(16 :: nat) = min (match_at two_blocks one_block 0 0) 0x10000"
    using b(3) [unfolded e, THEN spec [of _ one_block], THEN spec [of _ 0], THEN spec [of _ 0],
        THEN spec [of _ 0], THEN spec [of _ 16]] fm
    by auto
  ultimately show ?thesis using fm two_blocks_prepare by simp
qed

text \<open>
  Claim C4 as stated fails on that run: both blocks of the reference match the target over
  16 bytes, the record of offset 0 stands before the record of offset 16 in their chain,
  and the search selects offset 0, the earlier one.
\<close>

theorem later_offset_counterexample:
  "delta_prepare (replicate 32 0)
     = Inr \<lparr>fphbits = 2, fphash = [[\<lparr>fp = 0, ptr = 0\<rparr>, \<lparr>fp = 0, ptr = 16\<rparr>], [], [], []]\<rparr>
   \<and> match_at (replicate 32 0) (replicate 16 0) 0 0 = 16
   \<and> match_at (replicate 32 0) (replicate 16 0) 0 16 = 16
   \<and> find_match (replicate 32 0) (replicate 16 0)
       \<lparr>fphbits = 2, fphash = [[\<lparr>fp = 0, ptr = 0\<rparr>, \<lparr>fp = 0, ptr = 16\<rparr>], [], [], []]\<rparr> 0 0
     = (0, 16)"
  using two_blocks_match two_blocks_index two_blocks_prepare
  by (simp add: two_blocks_def one_block_def)

section \<open>The cap on the size of the delta\<close>

lemma grow_resize:
  assumes "grow max_size st = Inr st'"
  shows "\<exists>osz. st' = st\<lparr>outsize := osz\<rparr>"
proof -
  have "st = st\<lparr>outsize := outsize st\<rparr>" by simp
  with grow_cases [OF assms] show ?thesis by metis
qed

lemma enc_step_resize:
  "enc_step R T bdf (st\<lparr>outsize := x\<rparr>) = (enc_step R T bdf st)\<lparr>outsize := x\<rparr>"
  by (simp add: enc_step_def Let_def split: prod.splits)

lemma encode_loop_same_delta:
  assumes "encode_loop R T bdf m st = Inr st'"
    and "encode_loop R T bdf m2 (st\<lparr>outsize := x\<rparr>) = Inr st2'"
  shows "\<exists>y. st2' = st'\<lparr>outsize := y\<rparr>"
  using assms
proof (induction R T bdf m st arbitrary: x st2' rule: encode_loop.induct)
  case (1 R T bdf m st)
  show ?case
  proof (cases "data st < length T")
    case False
    then have "st' = st" using 1(2) by (subst (asm) encode_loop.simps) simp
    moreover have "st2' = st\<lparr>outsize := x\<rparr>"
      using 1(3) False by (subst (asm) encode_loop.simps) simp
    ultimately show ?thesis by blast
  next
    case True
    define st1 where "st1 = enc_step R T bdf st"
    from 1(2) True have ok: "\<not> length (out st1) > outsize st1"
      by (subst (asm) encode_loop.simps) (auto simp: Let_def st1_def split: if_splits)
    from 1(2) True ok obtain st2 where g: "grow m st1 = Inr st2"
      and e: "encode_loop R T bdf m st2 = Inr st'"
      by (subst (asm) encode_loop.simps) (auto simp: Let_def st1_def split: sum.splits)
    from 1(3) True obtain s2 where g2: "grow m2 (st1\<lparr>outsize := x\<rparr>) = Inr s2"
      and e2: "encode_loop R T bdf m2 s2 = Inr st2'"
      by (subst (asm) encode_loop.simps)
        (auto simp: Let_def st1_def enc_step_resize split: sum.splits if_splits)
    from grow_resize [OF g] obtain a where a: "st2 = st1\<lparr>outsize := a\<rparr>" by blast
    from grow_resize [OF g2] obtain b where "s2 = st1\<lparr>outsize := b\<rparr>" by auto
    then have "s2 = st2\<lparr>outsize := b\<rparr>" using a by simp
    with 1(1) [OF True st1_def ok g e] e2 show ?thesis by blast
  qed
qed

lemma diff_delta_same_delta:
  assumes "diff_delta R T m = Inr d" "diff_delta R T m2 = Inr d2"
  shows "d2 = d"
proof -
  let ?hdr = "put_size (put_size [] (length R)) (length T)"
  from assms(1) obtain bdf osz st where
    b: "delta_prepare R = Inr bdf"
    and e: "encode_loop R T bdf m
          \<lparr>out = ?hdr, outsize = osz, inscnt = 0, moff = 0, data = 0\<rparr> = Inr st"
    and d: "d = flush st"
    by (rule diff_delta_run)
  from assms(2) obtain bdf2 osz2 st2 where
    b2: "delta_prepare R = Inr bdf2"
    and e2': "encode_loop R T bdf2 m2
          \<lparr>out = ?hdr, outsize = osz2, inscnt = 0, moff = 0, data = 0\<rparr> = Inr st2"
    and d2: "d2 = flush st2"
    by (rule diff_delta_run)
  from b b2 have "bdf2 = bdf" by simp
  with e2' have e2: "encode_loop R T bdf m2
          \<lparr>out = ?hdr, outsize = osz2, inscnt = 0, moff = 0, data = 0\<rparr> = Inr st2"
    by simp
  have "\<lparr>out = ?hdr, outsize = osz2, inscnt = 0, moff = 0, data = 0\<rparr>
      = \<lparr>out = ?hdr, outsize = osz, inscnt = 0, moff = 0, data = 0\<rparr>\<lparr>outsize := osz2\<rparr>"
    by simp
  with encode_loop_same_delta [OF e] e2 obtain y where "st2 = st\<lparr>outsize := y\<rparr>"
    by metis
  then show ?thesis by (simp add: d d2 flush_def)
qed

lemma enc_step_data_le:
  assumes "data st < length T"
  shows "data (enc_step R T bdf st) \<le> length T"
proof -
  obtain mo ms where fm: "find_match R T bdf (data st) (moff st) = (mo, ms)"
    by (cases "find_match R T bdf (data st) (moff st)")
  show ?thesis
  proof (cases "ms = 0 \<or> ms < COPYOP_SIZE mo ms")
    case True
    show ?thesis using assms by (simp add: enc_step_insert [OF fm True])
  next
    case False
    with find_match_good [of R T "data st" bdf "moff st"] show ?thesis
      by (auto simp: enc_step_copy [OF fm False] fm good_match_def)
  qed
qed

lemma enc_step_capped:
  assumes "capped m T st" "data st < length T"
  shows "capped m T (enc_step R T bdf st)"
  using assms enc_step_length(2) [of R T bdf st] enc_step_data_le [OF assms(2), of R bdf]
  by (simp add: capped_def enc_step_outsize)

lemma grow_capped:
  assumes "capped m T st" "0 < m" "length T < 2 ^ 29" "length (out st) \<le> outsize st"
    and "grow m st = Inr st'"
  shows "capped m T st' \<and> length (out st') \<le> m"
proof -
  from assms(1) have c: "9 \<le> outsize st" "outsize st \<le> m + 8" "outsize st < 4294967296"
    "length (out st) \<le> 10 + 2 * data st" "data st \<le> length T"
    by (simp_all add: capped_def)
  have t: "(outsize st + 4294967296 - MAX_OP_SIZE) mod 4294967296 = outsize st - 7"
    using c by (intro grow_threshold) simp_all
  show ?thesis
  proof (cases "length (out st) \<ge> outsize st - 7")
    case False
    then have "st' = st" using assms(5) by (simp add: grow_def t)
    moreover have "length (out st) \<le> m" using False c(2) by arith
    ultimately show ?thesis using assms(1) by simp
  next
    case True
    have "outsize st \<le> 17 + 2 * length T" using True c(4,5) by arith
    with assms(3) have lt: "outsize st * 3 < 4294967296" by simp
    define osz where "osz = outsize st * 3 div 2"
    have o: "(outsize st * 3 mod 4294967296) div 2 = osz" using lt by (simp add: osz_def)
    have ob: "13 \<le> osz" "osz < 2147483648" using c(1) lt unfolding osz_def by arith+
    have m8: "(m + MAX_OP_SIZE + 1) mod 4294967296 = m + 8" if "m \<le> osz"
      using that ob by (simp add: MAX_OP_SIZE_eq)
    from assms(5) True have le: "length (out st) \<le> m"
      using assms(2) by (auto simp: grow_def t o Let_def split: if_splits)
    from assms(5) True le have st': "st' = st\<lparr>outsize := (if m \<le> osz then m + 8 else osz)\<rparr>"
      using assms(2) m8 by (auto simp: grow_def t o Let_def split: if_splits)
    have "capped m T st'"
      using c ob assms(2) by (auto simp: st' capped_def)
    with le st' show ?thesis by simp
  qed
qed

lemma encode_loop_capped:
  assumes "encode_loop R T bdf m st = Inr st'" "capped m T st" "0 < m" "length T < 2 ^ 29"
    and "data st < length T \<or> length (out st) \<le> m"
  shows "length (out st') \<le> m"
  using assms
proof (induction R T bdf m st rule: encode_loop.induct)
  case (1 R T bdf m st)
  show ?case
  proof (cases "data st < length T")
    case False
    then have "st' = st" using 1(2) by (subst (asm) encode_loop.simps) simp
    with False 1(6) show ?thesis by simp
  next
    case True
    define st1 where "st1 = enc_step R T bdf st"
    from 1(2) True have ok: "\<not> length (out st1) > outsize st1"
      by (subst (asm) encode_loop.simps) (auto simp: Let_def st1_def split: if_splits)
    from 1(2) True ok obtain st2 where g: "grow m st1 = Inr st2"
      and e: "encode_loop R T bdf m st2 = Inr st'"
      by (subst (asm) encode_loop.simps) (auto simp: Let_def st1_def split: sum.splits)
    have "capped m T st1" unfolding st1_def using 1(3) True by (rule enc_step_capped)
    from grow_capped [OF this 1(4,5) _ g] ok
    have "capped m T st2" "length (out st2) \<le> m" by simp_all
    with 1(1) [OF True st1_def ok g e _ 1(4,5)] show ?thesis by simp
  qed
qed

lemma diff_delta_capped:
  assumes "diff_delta R T m = Inr d" "0 < m" "length R < 2 ^ 31" "length T < 2 ^ 29"
  shows "length d \<le> m"
proof -
  let ?hdr = "put_size (put_size [] (length R)) (length T)"
  let ?osz = "if 8192 \<ge> m then (m + MAX_OP_SIZE + 1) mod 2 ^ 32 else 8192"
  let ?st = "\<lparr>out = ?hdr, outsize = ?osz, inscnt = 0, moff = 0, data = 0\<rparr>"
  from assms(1,2) obtain bdf st where
    e: "encode_loop R T bdf m ?st = Inr st" and d: "d = flush st"
    and T: "T \<noteq> []"
    by (auto simp: diff_delta_def Let_def flush_def split: if_splits sum.splits)
  have h: "length ?hdr \<le> 10" using assms(3,4) by (rule header_length)
  have "capped m T ?st"
    using h assms(2) by (auto simp: capped_def MAX_OP_SIZE_eq)
  moreover have "data ?st < length T" using T by simp
  ultimately have "length (out st) \<le> m"
    using e assms(2,4) by (intro encode_loop_capped [of R T bdf m ?st]) simp_all
  then show ?thesis by (simp add: d length_flush)
qed

text \<open>
  The cap, within the sizes of the round trip above: for every \<open>max_size = m > 0\<close>, a
  delta that \<open>diff_delta\<close> returns is at most
  \<open>m + MAX_OP_SIZE + 1\<close> bytes long (and is the delta of the call without a cap); and
  when the delta of the call without a cap is longer than \<open>m\<close>, the call with the cap
  returns an error and no delta.
\<close>

theorem cap_honoured:
  assumes "R \<noteq> []" "T \<noteq> []" "length R < 2 ^ 31" "length T < 2 ^ 29" "0 < m"
  shows "(\<forall>d. diff_delta R T m = Inr d
            \<longrightarrow> length d \<le> m + MAX_OP_SIZE + 1 \<and> diff_delta R T 0 = Inr d)
    \<and> (\<forall>d0. diff_delta R T 0 = Inr d0 \<and> m < length d0 \<longrightarrow> (\<exists>e. diff_delta R T m = Inl e))"
proof -
  from diff_delta_total [OF assms(1-4)] obtain d0 where d0: "diff_delta R T 0 = Inr d0"
    by blast
  have a: "length d \<le> m \<and> d = d0" if "diff_delta R T m = Inr d" for d
    using diff_delta_capped [OF that assms(5,3,4)] diff_delta_same_delta [OF d0 that]
    by simp
  have "\<exists>e. diff_delta R T m = Inl e" if "m < length d0"
  proof (cases "diff_delta R T m")
    case (Inl e)
    then show ?thesis by blast
  next
    case (Inr d)
    with a that show ?thesis by auto
  qed
  with a d0 show ?thesis by auto
qed

lemma zero_ref_loop_capped:
  "encode_loop zero_ref lit_copy_lit zero_ref_index 8
     \<lparr>out = [2, 4], outsize = 16, inscnt = 0, moff = 0, data = 0\<rparr>
   = Inr \<lparr>out = [2, 4, 1, 5, 144, 2, 0, 0], outsize = 16, inscnt = Suc 0, moff = 0, data = 4\<rparr>"
  "encode_loop zero_ref lit_copy_lit zero_ref_index 7
     \<lparr>out = [2, 4], outsize = 15, inscnt = 0, moff = 0, data = 0\<rparr>
   = Inl DeltaExceedsCap"
proof -
  show "encode_loop zero_ref lit_copy_lit zero_ref_index 8
     \<lparr>out = [2, 4], outsize = 16, inscnt = 0, moff = 0, data = 0\<rparr>
   = Inr \<lparr>out = [2, 4, 1, 5, 144, 2, 0, 0], outsize = 16, inscnt = Suc 0, moff = 0, data = 4\<rparr>"
    apply (subst encode_loop.simps, simp add: zero_ref_steps grow_idle lit_copy_lit_nth)
    apply (subst encode_loop.simps, simp add: zero_ref_steps grow_idle lit_copy_lit_nth)
    apply (subst encode_loop.simps, simp add: zero_ref_steps grow_idle lit_copy_lit_nth)
    apply (subst encode_loop.simps, simp add: lit_copy_lit_nth)
    done
  have g: "grow 7 \<lparr>out = [2, 4, 1, 5, 144, 2, 0, 0], outsize = 15, inscnt = Suc 0, moff = 0,
      data = 4\<rparr> = Inl DeltaExceedsCap"
    using grow_threshold [of 15] by (simp add: grow_def)
  show "encode_loop zero_ref lit_copy_lit zero_ref_index 7
     \<lparr>out = [2, 4], outsize = 15, inscnt = 0, moff = 0, data = 0\<rparr>
   = Inl DeltaExceedsCap"
    apply (subst encode_loop.simps, simp add: zero_ref_steps grow_idle lit_copy_lit_nth)
    apply (subst encode_loop.simps, simp add: zero_ref_steps grow_idle lit_copy_lit_nth)
    apply (subst encode_loop.simps, simp add: zero_ref_steps g lit_copy_lit_nth)
    done
qed

lemma zero_ref_delta_capped:
  "diff_delta zero_ref lit_copy_lit 8 = Inr [2, 4, 1, 5, 144, 2, 1, 0]"
  "diff_delta zero_ref lit_copy_lit 7 = Inl DeltaExceedsCap"
  by (simp_all add: diff_delta_def zero_ref_prepare zero_ref_header zero_ref_loop_capped
      lit_copy_lit_nth MAX_OP_SIZE_eq)

theorem cap_honoured_witness:
  "diff_delta [0, 0] [5, 0, 0, 0] 8 = Inr [2, 4, 1, 5, 144, 2, 1, 0]
   \<and> length [2 :: byte, 4, 1, 5, 144, 2, 1, 0] \<le> 8 + MAX_OP_SIZE + 1
   \<and> diff_delta [0, 0] [5, 0, 0, 0] 0 = Inr [2, 4, 1, 5, 144, 2, 1, 0]
   \<and> diff_delta [0, 0] [5, 0, 0, 0] 7 = Inl DeltaExceedsCap"
proof -
  have h: "zero_ref \<noteq> []" "lit_copy_lit \<noteq> []" "length zero_ref < 2 ^ 31"
    "length lit_copy_lit < 2 ^ 29"
    by (simp_all add: lit_copy_lit_nth)
  from cap_honoured [OF h, of 8] zero_ref_delta_capped(1)
  have "length [2 :: byte, 4, 1, 5, 144, 2, 1, 0] \<le> 8 + MAX_OP_SIZE + 1
    \<and> diff_delta zero_ref lit_copy_lit 0 = Inr [2, 4, 1, 5, 144, 2, 1, 0]"
    by simp
  moreover from cap_honoured [OF h, of 7] zero_ref_delta
  have "\<exists>e. diff_delta zero_ref lit_copy_lit 7 = Inl e"
    by simp
  ultimately show ?thesis
    using zero_ref_delta_capped by (simp add: zero_ref_def lit_copy_lit_def)
qed

section \<open>The records of the index\<close>

lemma block_read:
  assumes "0 \<le> pos" "pos < int (length buf)"
  shows "take (to_uint (if int BLK_SIZE < int (length buf) - pos then int BLK_SIZE
                        else int (length buf) - pos)) (drop (nat pos) buf)
    = block_of buf (nat pos)"
proof -
  let ?v = "if int BLK_SIZE < int (length buf) - pos then int BLK_SIZE else int (length buf) - pos"
  have "0 \<le> ?v" "?v < 2 ^ 32" using assms by (simp_all add: BLK_SIZE_def)
  then have "to_uint ?v = nat ?v" by (rule to_uint_eq)
  also have "\<dots> = min BLK_SIZE (length buf - nat pos)"
    using assms by (auto simp: BLK_SIZE_def)
  finally show ?thesis by (simp only: block_of_def)
qed

lemma prepare_loop_step:
  assumes "0 \<le> pos" "pos < int (length buf)"
  shows "prepare_loop buf (int (length buf)) hbits pos hash
    = prepare_loop buf (int (length buf)) hbits (pos - int BLK_SIZE)
        (hash[HASH (adler32 0 (block_of buf (nat pos))) hbits
           := \<lparr>fp = adler32 0 (block_of buf (nat pos)), ptr = nat pos\<rparr>
              # hash ! HASH (adler32 0 (block_of buf (nat pos))) hbits])"
  using assms(1)
  by (subst prepare_loop.simps) (simp only: Let_def block_read [OF assms] if_True bdrecord.simps)

lemma prepare_loop_faithful:
  assumes "\<forall>chain \<in> set hash. \<forall>b \<in> set chain. faithful buf b" "int BLK_SIZE dvd pos"
    "pos < bufsize" "bufsize = int (length buf)"
  shows "\<forall>chain \<in> set (prepare_loop buf bufsize hbits pos hash). \<forall>b \<in> set chain. faithful buf b"
  using assms
proof (induction buf bufsize hbits pos hash rule: prepare_loop.induct)
  case (1 buf bufsize hbits pos hash)
  show ?case
  proof (cases "0 \<le> pos")
    case False
    then show ?thesis using 1(2) by (subst prepare_loop.simps) simp
  next
    case True
    define brec where "brec = \<lparr>fp = adler32 0
      (take (to_uint (if int BLK_SIZE < bufsize - pos then int BLK_SIZE else bufsize - pos))
         (drop (nat pos) buf)), ptr = nat pos\<rparr>"
    define i where "i = HASH (fp brec) hbits"
    have "int BLK_SIZE dvd int (nat pos)" using 1(3) True by simp
    then have "BLK_SIZE dvd nat pos" by (simp only: int_dvd_int_iff)
    moreover have lt: "pos < int (length buf)" using 1(4,5) by simp
    have "fp brec = adler32 0 (block_of buf (nat pos))"
      by (simp only: brec_def 1(5) block_read [OF True lt] bdrecord.simps)
    ultimately have fb: "faithful buf brec"
      by (simp add: faithful_def brec_def)
    have "\<forall>b \<in> set chain. faithful buf b" if "chain \<in> set (hash[i := brec # hash ! i])"
      for chain
    proof -
      from that consider "chain \<in> set hash" | "chain = brec # hash ! i" "i < length hash"
        by (cases "i < length hash")
          (use set_update_subset_insert [of hash i "brec # hash ! i"] in
            \<open>auto simp: list_update_beyond\<close>)
      then show ?thesis
      proof cases
        case 1
        with "1.prems"(1) show ?thesis by blast
      next
        case 2
        then have "hash ! i \<in> set hash" by simp
        with "1.prems"(1) 2 fb show ?thesis by auto
      qed
    qed
    moreover have "int BLK_SIZE dvd pos - int BLK_SIZE" using 1(3) by simp
    moreover have "pos - int BLK_SIZE < bufsize" using 1(4) by simp
    ultimately have "\<forall>chain \<in> set (prepare_loop buf bufsize hbits (pos - int BLK_SIZE)
        (hash[i := brec # hash ! i])). \<forall>b \<in> set chain. faithful buf b"
      using 1(1) [OF True brec_def i_def] 1(5) by blast
    then show ?thesis
      using True by (subst prepare_loop.simps) (simp add: Let_def brec_def i_def)
  qed
qed

lemma fphash_block_index:
  "fphash (block_index R)
     = prepare_loop R (int (length R)) (fphbits (block_index R)) (last_block R)
         (replicate (2 ^ fphbits (block_index R)) [])"
  by (simp add: block_index_def)

lemma last_block_less: "last_block R < int (length R)"
proof -
  have "length R div BLK_SIZE * BLK_SIZE \<le> length R" by simp
  then show ?thesis
    unfolding last_block_def by (auto simp: BLK_SIZE_def)
qed

lemma last_block_dvd: "int BLK_SIZE dvd last_block R"
proof -
  define x where "x = int (length R div BLK_SIZE * BLK_SIZE)"
  have "int BLK_SIZE dvd x" by (simp add: x_def)
  then have "int BLK_SIZE dvd x - int BLK_SIZE" by simp
  with \<open>int BLK_SIZE dvd x\<close> show ?thesis
    unfolding last_block_def x_def [symmetric] by (simp only: if_split) blast
qed

lemma block_index_faithful:
  "\<forall>chain \<in> set (fphash (block_index R)). \<forall>b \<in> set chain. faithful R b"
  unfolding fphash_block_index
  by (rule prepare_loop_faithful) (simp_all add: last_block_dvd last_block_less)

lemma prepare_loop_keeps:
  assumes "b \<in> set (hash ! i)" "i < length hash"
  shows "b \<in> set (prepare_loop buf bufsize hbits pos hash ! i)"
  using assms
proof (induction buf bufsize hbits pos hash rule: prepare_loop.induct)
  case (1 buf bufsize hbits pos hash)
  show ?case
  proof (cases "0 \<le> pos")
    case False
    then show ?thesis using 1(2) by (subst prepare_loop.simps) simp
  next
    case True
    define brec where "brec = \<lparr>fp = adler32 0
      (take (to_uint (if int BLK_SIZE < bufsize - pos then int BLK_SIZE else bufsize - pos))
         (drop (nat pos) buf)), ptr = nat pos\<rparr>"
    define j where "j = HASH (fp brec) hbits"
    have "b \<in> set (hash[j := brec # hash ! j] ! i)"
      using 1(2,3) by (cases "i = j") simp_all
    moreover have "i < length (hash[j := brec # hash ! j])" using 1(3) by simp
    ultimately have "b \<in> set (prepare_loop buf bufsize hbits (pos - int BLK_SIZE)
        (hash[j := brec # hash ! j]) ! i)"
      using 1(1) [OF True brec_def j_def] by blast
    then show ?thesis
      using True by (subst prepare_loop.simps) (simp add: Let_def brec_def j_def)
  qed
qed

lemma prepare_loop_indexes:
  assumes "0 \<le> p" "p \<le> pos" "int BLK_SIZE dvd pos - p"
    "HASH (adler32 0 (block_of buf (nat p))) hbits < length hash"
    "pos < bufsize" "bufsize = int (length buf)"
  shows "\<lparr>fp = adler32 0 (block_of buf (nat p)), ptr = nat p\<rparr>
    \<in> set (prepare_loop buf bufsize hbits pos hash ! HASH (adler32 0 (block_of buf (nat p))) hbits)"
  using assms
proof (induction buf bufsize hbits pos hash rule: prepare_loop.induct)
  case (1 buf bufsize hbits pos hash)
  have pos: "0 \<le> pos" using 1(2,3) by simp
  have lt: "pos < int (length buf)" using 1(6,7) by simp
  let ?i = "HASH (adler32 0 (block_of buf (nat pos))) hbits"
  let ?hash = "hash[?i := \<lparr>fp = adler32 0 (block_of buf (nat pos)), ptr = nat pos\<rparr> # hash ! ?i]"
  show ?case
  proof (cases "p = pos")
    case True
    have "\<lparr>fp = adler32 0 (block_of buf (nat p)), ptr = nat p\<rparr> \<in> set (?hash ! ?i)"
      using 1(5) True by simp
    then have "\<lparr>fp = adler32 0 (block_of buf (nat p)), ptr = nat p\<rparr>
        \<in> set (prepare_loop buf bufsize hbits (pos - int BLK_SIZE) ?hash ! ?i)"
      using 1(5) True by (intro prepare_loop_keeps) simp_all
    then show ?thesis
      using True by (simp add: 1(7) prepare_loop_step [OF pos lt])
  next
    case False
    have "int BLK_SIZE \<le> pos - p"
      using 1(4) False 1(3) by (intro zdvd_imp_le) simp_all
    then have le: "p \<le> pos - int BLK_SIZE" by simp
    have lt': "pos - int BLK_SIZE < bufsize" using 1(6) by simp
    have e: "pos - int BLK_SIZE - p = (pos - p) - int BLK_SIZE" by simp
    have dv: "int BLK_SIZE dvd pos - int BLK_SIZE - p"
      unfolding e using 1(4) by (rule dvd_diff) simp
    define brec where "brec = \<lparr>fp = adler32 0
      (take (to_uint (if int BLK_SIZE < bufsize - pos then int BLK_SIZE else bufsize - pos))
         (drop (nat pos) buf)), ptr = nat pos\<rparr>"
    define i where "i = HASH (fp brec) hbits"
    have "HASH (adler32 0 (block_of buf (nat p))) hbits < length (hash[i := brec # hash ! i])"
      using 1(5) by simp
    from 1(1) [OF pos brec_def i_def 1(2) le dv this lt' 1(7)] show ?thesis
      using pos by (subst prepare_loop.simps) (simp add: Let_def brec_def i_def)
  qed
qed

text \<open>
  Whatever the size of the reference, an index that \<open>delta_prepare\<close> returns has
  \<open>2 ^ fphbits\<close> buckets, so that the probe \<open>fphash[i]\<close> of line 213 stays inside the
  table, and the offsets of its records are below \<open>2 ^ 31\<close>, so that the
  \<open>unsigned int moff\<close> carries them unchanged.
\<close>

lemma delta_prepare_table:
  assumes "delta_prepare R = Inr bdf"
  shows "length (fphash bdf) = 2 ^ fphbits bdf" "HASH f (fphbits bdf) < length (fphash bdf)"
proof -
  from assms have b: "fphbits bdf < 31"
    by (auto simp: delta_prepare_def Let_def split: if_splits)
  from assms show l: "length (fphash bdf) = 2 ^ fphbits bdf"
    by (auto simp: delta_prepare_def Let_def length_prepare_loop split: if_splits)
  have "HASH f (fphbits bdf) < 2 ^ fphbits bdf"
    using b by (intro HASH_less) simp
  then show "HASH f (fphbits bdf) < length (fphash bdf)"
    by (simp only: l)
qed

lemma prepare_loop_ptrs:
  assumes "\<forall>chain \<in> set hash. \<forall>b \<in> set chain. ptr b < K" "pos < int K"
  shows "\<forall>chain \<in> set (prepare_loop buf bufsize hbits pos hash). \<forall>b \<in> set chain. ptr b < K"
  using assms
proof (induction buf bufsize hbits pos hash rule: prepare_loop.induct)
  case (1 buf bufsize hbits pos hash)
  show ?case
  proof (cases "0 \<le> pos")
    case False
    then show ?thesis using 1(2) by (subst prepare_loop.simps) simp
  next
    case True
    define brec where "brec = \<lparr>fp = adler32 0
      (take (to_uint (if int BLK_SIZE < bufsize - pos then int BLK_SIZE else bufsize - pos))
         (drop (nat pos) buf)), ptr = nat pos\<rparr>"
    define i where "i = HASH (fp brec) hbits"
    have pb: "ptr brec < K" using True 1(3) by (simp add: brec_def)
    have "\<forall>b \<in> set chain. ptr b < K" if "chain \<in> set (hash[i := brec # hash ! i])"
      for chain
    proof -
      from that consider "chain \<in> set hash" | "chain = brec # hash ! i" "i < length hash"
        by (cases "i < length hash")
          (use set_update_subset_insert [of hash i "brec # hash ! i"] in
            \<open>auto simp: list_update_beyond\<close>)
      then show ?thesis
      proof cases
        case 1
        with "1.prems"(1) show ?thesis by blast
      next
        case 2
        then have "hash ! i \<in> set hash" by simp
        with "1.prems"(1) 2 pb show ?thesis by auto
      qed
    qed
    moreover have "pos - int BLK_SIZE < int K" using 1(3) by simp
    ultimately have "\<forall>chain \<in> set (prepare_loop buf bufsize hbits (pos - int BLK_SIZE)
        (hash[i := brec # hash ! i])). \<forall>b \<in> set chain. ptr b < K"
      using 1(1) [OF True brec_def i_def] by blast
    then show ?thesis
      using True by (subst prepare_loop.simps) (simp add: Let_def brec_def i_def)
  qed
qed

lemma to_int_less: "to_int n < 2 ^ 31"
proof -
  define x where "x = n mod 2 ^ 32"
  have "x < 2 ^ 32" by (simp add: x_def)
  then have "(if x < 2 ^ 31 then int x else int x - 2 ^ 32) < 2 ^ 31" by auto
  then show ?thesis by (simp only: to_int_def x_def)
qed

lemma sdiv_block_less:
  assumes "b < 2 ^ 31"
  shows "(b sdiv int BLK_SIZE) * int BLK_SIZE < 2 ^ 31"
proof (cases "0 \<le> b")
  case True
  then have "b sdiv int BLK_SIZE = b div 16"
    by (simp add: signed_divide_int_def sgn_if BLK_SIZE_def)
  moreover have "b div 16 * 16 \<le> b" by simp
  ultimately show ?thesis using assms by (simp add: BLK_SIZE_def)
next
  case False
  then have "b sdiv int BLK_SIZE = - (\<bar>b\<bar> div 16)"
    by (simp add: signed_divide_int_def sgn_if BLK_SIZE_def)
  moreover have "0 \<le> \<bar>b\<bar> div 16" by simp
  ultimately have "(b sdiv int BLK_SIZE) * int BLK_SIZE \<le> 0"
    by (simp add: BLK_SIZE_def)
  then show ?thesis by simp
qed

lemma delta_prepare_ptrs:
  assumes "delta_prepare R = Inr bdf"
  shows "\<forall>chain \<in> set (fphash bdf). \<forall>b \<in> set chain. ptr b < 2 ^ 31"
proof -
  let ?b = "to_int (length R)"
  have p: "(?b sdiv int BLK_SIZE) * int BLK_SIZE < int (2 ^ 31)"
    using sdiv_block_less [OF to_int_less [of "length R"]] by simp
  have "\<forall>chain \<in> set (prepare_loop R bs hb pos (replicate n [])).
      \<forall>b \<in> set chain. ptr b < 2 ^ 31"
    if "pos < int (2 ^ 31)" for bs hb pos n
    using _ that by (rule prepare_loop_ptrs) simp
  from this [of "(?b sdiv int BLK_SIZE) * int BLK_SIZE"]
    this [of "(?b sdiv int BLK_SIZE) * int BLK_SIZE - int BLK_SIZE"] p assms
  show ?thesis
    by (auto simp: delta_prepare_def Let_def split: if_splits)
qed

section \<open>Stores outside the output buffer\<close>

lemma adler_sums_one:
  assumes "s1 + 1 < 65521" "s2 + s1 + 1 < 65521"
  shows "adler_sums s1 s2 (1 # cs) = adler_sums (s1 + 1) (s2 + s1 + 1) cs"
proof -
  have a: "(s1 + 1) mod 65521 = s1 + 1" using assms(1) by (rule mod_less)
  have b: "(s2 + (s1 + 1)) mod 65521 = s2 + s1 + 1"
    using assms(2) by (simp only: mod_less add.assoc)
  have "adler_sums s1 s2 (1 # cs)
      = adler_sums ((s1 + 1) mod 65521) ((s2 + (s1 + 1) mod 65521) mod 65521) cs"
    by (simp only: adler_sums.simps Let_def unsigned_1)
  then show ?thesis by (simp only: a b)
qed

lemma adler_sums_ones:
  "s1 + n < 65521 \<Longrightarrow> s2 + n * s1 + n * (n + 1) div 2 < 65521 \<Longrightarrow>
   adler_sums s1 s2 (replicate n 1) = (s1 + n, s2 + n * s1 + n * (n + 1) div 2)"
proof (induction n arbitrary: s1 s2)
  case 0
  then show ?case by simp
next
  case (Suc n)
  have e: "Suc n * (Suc n + 1) div 2 = n * (n + 1) div 2 + (n + 1)"
    by (simp add: algebra_simps)
  have a: "s1 + 1 < 65521" using Suc.prems(1) by linarith
  have b: "s2 + s1 + 1 < 65521" using Suc.prems(2) unfolding e by simp
  have c: "s1 + 1 + n < 65521" using Suc.prems(1) by linarith
  have d: "s2 + s1 + 1 + n * (s1 + 1) + n * (n + 1) div 2 < 65521"
    using Suc.prems(2) unfolding e by (simp add: algebra_simps)
  have "adler_sums s1 s2 (replicate (Suc n) 1)
      = adler_sums (s1 + 1) (s2 + s1 + 1) (replicate n 1)"
    using adler_sums_one [OF a b] by (simp only: replicate_Suc)
  also have "\<dots> = (s1 + 1 + n, s2 + s1 + 1 + n * (s1 + 1) + n * (n + 1) div 2)"
    using c d by (rule Suc.IH)
  also have "\<dots> = (s1 + Suc n, s2 + Suc n * s1 + Suc n * (Suc n + 1) div 2)"
    unfolding e by (simp add: algebra_simps)
  finally show ?case .
qed

lemma adler32_ones: "adler32 0 (replicate 16 1) = 8912912"
proof -
  have "adler_sums 0 0 (replicate 16 1) = (0 + 16, 0 + 16 * 0 + 16 * (16 + 1) div 2)"
    by (rule adler_sums_ones) simp_all
  then have "adler_sums 0 0 (replicate 16 1) = (16, 136)" by simp
  then show ?thesis by (simp add: adler32_def)
qed

lemma hashbits_1025: "hashbits 1025 = 11"
  by (simp add: hashbits_def hashbits_loop.simps)

lemma overrun_sizes:
  "length ones_then_zeros = 16384" "length zero_run = 257"
  "ones_then_zeros \<noteq> []" "zero_run \<noteq> []"
  by (simp_all add: ones_then_zeros_def zero_run_def)

lemma overrun_index:
  "fphbits (block_index ones_then_zeros) = 11" "last_block ones_then_zeros = 16368"
  by (simp_all add: fphbits_block_index last_block_def overrun_sizes BLK_SIZE_def
      hashbits_1025)

lemma overrun_blocks:
  "block_of ones_then_zeros 272 = replicate 16 0"
  "BLK_SIZE dvd p \<Longrightarrow> p < 272 \<Longrightarrow> block_of ones_then_zeros p = replicate 16 1"
proof -
  show "block_of ones_then_zeros 272 = replicate 16 0"
    by (simp add: block_of_def ones_then_zeros_def BLK_SIZE_def)
  assume "BLK_SIZE dvd p" "p < 272"
  then obtain k where "p = 16 * k" by (auto simp: BLK_SIZE_def dvd_def)
  with \<open>p < 272\<close> have "p \<le> 256" by simp
  then have "min 16 (16384 - p) = 16" "16 \<le> 272 - p" by arith+
  then show "block_of ones_then_zeros p = replicate 16 1"
    using \<open>p \<le> 256\<close> by (simp add: block_of_def ones_then_zeros_def BLK_SIZE_def)
qed

lemma overrun_fp: "block_fp zero_run 0 = 0"
  by (simp add: block_fp_def zero_run_def BLK_SIZE_def adler32_zeros)

lemma overrun_chain:
  "probed_chain (block_index ones_then_zeros) zero_run 0
     = fphash (block_index ones_then_zeros) ! 0"
  by (simp add: probed_chain_def overrun_fp HASH_0)

lemma overrun_record:
  "\<lparr>fp = 0, ptr = 272\<rparr> \<in> set (probed_chain (block_index ones_then_zeros) zero_run 0)"
proof -
  have "\<lparr>fp = adler32 0 (block_of ones_then_zeros (nat 272)), ptr = nat 272\<rparr>
    \<in> set (prepare_loop ones_then_zeros 16384 11 16368 (replicate (2 ^ 11) [])
        ! HASH (adler32 0 (block_of ones_then_zeros (nat 272))) 11)"
    by (rule prepare_loop_indexes)
      (simp_all add: BLK_SIZE_def overrun_blocks adler32_zeros HASH_0 overrun_sizes)
  then show ?thesis
    by (simp add: overrun_chain fphash_block_index overrun_index overrun_blocks
        adler32_zeros HASH_0 overrun_sizes)
qed

lemma overrun_match_at:
  "match_at ones_then_zeros zero_run 0 272 = 257"
  "match_at ones_then_zeros zero_run 0 p \<le> 257"
proof -
  show "match_at ones_then_zeros zero_run 0 272 = 257"
    by (simp add: match_at_def to_uint_def ones_then_zeros_def zero_run_def match_run_zeros)
  have "match_at ones_then_zeros zero_run 0 p \<le> length zero_run - 0"
    unfolding match_at_def
    by (rule order_trans [OF match_run_le]) simp
  then show "match_at ones_then_zeros zero_run 0 p \<le> 257"
    by (simp add: overrun_sizes)
qed

lemma overrun_match:
  "find_match ones_then_zeros zero_run (block_index ones_then_zeros) 0 0 = (272, 257)"
proof -
  let ?R = ones_then_zeros and ?T = zero_run
  let ?chain = "probed_chain (block_index ?R) ?T 0"
  obtain mo ms where w: "walk_chain ?R ?T 0 0 ?chain (0, 0) = (mo, ms)"
    by (cases "walk_chain ?R ?T 0 0 ?chain (0, 0)") blast
  have len: "length ?R < 2 ^ 31" by (simp add: overrun_sizes)
  have mem: "?chain \<in> set (fphash (block_index ?R))"
    using len by (rule probed_chain_member)
  have srt: "sorted_wrt (<) (map ptr ?chain)"
    using block_index_sorted mem by blast
  have fth: "\<forall>b \<in> set ?chain. faithful ?R b"
    using block_index_faithful mem by blast
  let ?r = "\<lparr>fp = 0, ptr = 272\<rparr> :: bdrecord"
  have "\<not> (\<forall>b \<in> set ?chain. fp b = 0 \<longrightarrow> match_at ?R ?T 0 (ptr b) \<le> 0)"
    using overrun_record overrun_match_at(1) by force
  with walk_chain_selects [OF w] obtain pre b post where
    p: "?chain = pre @ b # post" "ptr b = mo" "fp b = 0"
      "ms = min (match_at ?R ?T 0 mo) 0x10000"
      "\<forall>b' \<in> set pre. fp b' = 0 \<longrightarrow> match_at ?R ?T 0 (ptr b') < ms"
    by auto
  have ms: "ms \<le> 257" using overrun_match_at(2) [of mo] p(4) by simp
  have b: "b \<in> set ?chain" using p(1) by simp
  have "\<not> mo < 272"
  proof
    assume "mo < 272"
    moreover have "faithful ?R b" using fth b by blast
    ultimately have "fp b = adler32 0 (replicate 16 1)"
      using p(2) overrun_blocks(2) [of mo] by (simp add: faithful_def)
    with p(3) show False by (simp add: adler32_ones)
  qed
  moreover have "\<not> 272 < mo"
  proof
    assume "272 < mo"
    then have "ptr ?r < ptr b" using p(2) by simp
    with srt overrun_record have "?r \<in> set pre"
      unfolding p(1) by (intro sorted_before [of pre b post ?r]) simp_all
    with p(5) have "match_at ?R ?T 0 272 < ms" by force
    with ms show False by (simp add: overrun_match_at(1))
  qed
  ultimately have "mo = 272" by simp
  with p(4) have "ms = 257" by (simp add: overrun_match_at(1))
  with w \<open>mo = 272\<close> show ?thesis
    by (simp add: find_match_walk overrun_fp)
qed

lemma overrun_step:
  "enc_step ones_then_zeros zero_run (block_index ones_then_zeros)
     \<lparr>out = [128, 128, 1, 129, 2], outsize = osz, inscnt = 0, moff = 0, data = 0\<rparr>
   = \<lparr>out = [128, 128, 1, 129, 2, 179, 16, 1, 1, 1], outsize = osz, inscnt = 0, moff = 0,
      data = 257\<rparr>"
  by (simp add: enc_step_def overrun_match COPYOP_SIZE_def emit_copy_def put_field_def)

lemma overrun_loop:
  "encode_loop ones_then_zeros zero_run (block_index ones_then_zeros) (Suc 0)
     \<lparr>out = [128, 128, 1, 129, 2], outsize = 9, inscnt = 0, moff = 0, data = 0\<rparr>
   = Inl StoreOutOfBounds"
  by (subst encode_loop.simps) (simp add: overrun_step overrun_sizes)

lemma overrun_header: "put_size (put_size [] 16384) 257 = [128, 128, 1, 129, 2]"
  by (simp add: put_size_eq size_tail.simps)

lemma overrun_prepare: "delta_prepare ones_then_zeros = Inr (block_index ones_then_zeros)"
  by (rule delta_prepare_in_range) (simp add: overrun_sizes)

lemma copy_overrun: "diff_delta ones_then_zeros zero_run 1 = Inl StoreOutOfBounds"
  by (simp add: diff_delta_def overrun_prepare overrun_sizes overrun_header MAX_OP_SIZE_eq
      overrun_loop)



lemma big_header:
  "put_size (put_size [] 268435456) 268435456 = [128, 128, 128, 128, 1, 128, 128, 128, 128, 1]"
  by (simp add: put_size_eq size_tail.simps)

lemma header_overrun:
  "diff_delta (replicate (2 ^ 28) 0) (replicate (2 ^ 28) 0) 1 = Inl StoreOutOfBounds"
proof -
  have "delta_prepare (replicate (2 ^ 28) 0) = Inr (block_index (replicate (2 ^ 28) 0))"
    by (rule delta_prepare_in_range) simp
  then show ?thesis
    by (simp add: diff_delta_def big_header MAX_OP_SIZE_eq)
qed

text \<open>
  Claim C10 fails in the source. With \<open>max_size = 1\<close> the buffer has
  \<open>1 + MAX_OP_SIZE + 1 = 9\<close> bytes. For a reference of 272 bytes 1 followed by 16112
  bytes 0 and a target of 257 bytes 0, the header takes five bytes and the first iteration
  writes the five bytes of the COPY opcode for offset 272 and size 257, the last of them at
  index 9, outside the buffer. For a reference and a target of \<open>2 ^ 28\<close> bytes each,
  either size takes five header bytes, and the tenth header byte is stored at index 9.
\<close>

theorem store_out_of_bounds:
  "diff_delta (replicate 272 1 @ replicate 16112 0) (replicate 257 0) 1 = Inl StoreOutOfBounds
   \<and> diff_delta (replicate (2 ^ 28) 0) (replicate (2 ^ 28) 0) 1 = Inl StoreOutOfBounds"
proof -
  have "diff_delta (replicate 272 1 @ replicate 16112 0) (replicate 257 0) 1
      = Inl StoreOutOfBounds"
    using copy_overrun by (simp only: ones_then_zeros_def zero_run_def)
  then show ?thesis using header_overrun by (rule conjI)
qed

section \<open>Sizes that 32 bits do not carry\<close>

lemma hashbits_wrapped: "hashbits 4160749569 = 32"
  by (simp add: hashbits_def hashbits_loop.simps)

lemma two_gib_prepare: "delta_prepare two_gib = Inl UndefinedShift"
  by (simp add: delta_prepare_def two_gib_def to_int_def to_uint_def signed_divide_int_def
      BLK_SIZE_def hashbits_wrapped Let_def)

lemma two_gib_delta: "T \<noteq> [] \<Longrightarrow> diff_delta two_gib T m = Inl UndefinedShift"
  by (simp add: diff_delta_def two_gib_prepare) (simp add: two_gib_def)

text \<open>
  Claim C1 fails in the source. For a reference of \<open>2 ^ 31\<close> bytes the size is converted
  to the \<open>int bufsize = - 2 ^ 31\<close> (line 171), \<open>bufsize / BLK_SIZE + 1\<close> is
  \<open>- 134217727\<close>, which the \<open>unsigned int\<close> parameter of \<open>hashbits\<close> reads as
  \<open>4160749569\<close>, \<open>hashbits\<close> returns 32, and the shift \<open>1 << 32\<close> of line 112 is
  undefined: the call returns no delta of the target, whatever the target is.
\<close>

theorem two_gib_reference_undefined:
  "diff_delta (replicate (2 ^ 31) 0) [1] 0 = Inl UndefinedShift"
  using two_gib_delta [of "[1]" 0] by (simp add: two_gib_def)

text \<open>
  A delta that \<open>diff_delta\<close> returns under a cap \<open>m > 0\<close> is at most
  \<open>m + MAX_OP_SIZE + 1\<close> bytes long, whatever the sizes.
\<close>

lemma grow_within:
  assumes "grow m st = Inr st'" "0 < m" "outsize st \<le> m + 8" "length (out st) \<le> outsize st"
  shows "outsize st' \<le> m + 8 \<and> length (out st') \<le> outsize st'"
proof -
  have "(m + MAX_OP_SIZE + 1) mod 2 ^ 32 \<le> m + 8"
    by (simp add: MAX_OP_SIZE_eq)
  with assms show ?thesis
    by (auto simp: grow_def Let_def split: if_splits)
qed

lemma encode_loop_within:
  assumes "encode_loop R T bdf m st = Inr st'" "0 < m" "outsize st \<le> m + 8"
    "length (out st) \<le> outsize st"
  shows "length (out st') \<le> m + 8"
  using assms
proof (induction R T bdf m st rule: encode_loop.induct)
  case (1 R T bdf m st)
  show ?case
  proof (cases "data st < length T")
    case False
    then have "st' = st" using 1(2) by (subst (asm) encode_loop.simps) simp
    with 1(4,5) show ?thesis by simp
  next
    case True
    define st1 where "st1 = enc_step R T bdf st"
    from 1(2) True have ok: "\<not> length (out st1) > outsize st1"
      by (subst (asm) encode_loop.simps) (auto simp: Let_def st1_def split: if_splits)
    from 1(2) True ok obtain st2 where g: "grow m st1 = Inr st2"
      and e: "encode_loop R T bdf m st2 = Inr st'"
      by (subst (asm) encode_loop.simps) (auto simp: Let_def st1_def split: sum.splits)
    have "outsize st1 \<le> m + 8" "length (out st1) \<le> outsize st1"
      using 1(4) ok by (simp_all add: st1_def enc_step_outsize)
    with grow_within [OF g 1(3)]
    have "outsize st2 \<le> m + 8" "length (out st2) \<le> outsize st2" by simp_all
    with 1(1) [OF True st1_def ok g e 1(3)] show ?thesis by simp
  qed
qed

lemma diff_delta_within_cap:
  assumes "diff_delta R T m = Inr d" "0 < m"
  shows "length d \<le> m + MAX_OP_SIZE + 1"
proof -
  let ?hdr = "put_size (put_size [] (length R)) (length T)"
  let ?osz = "if 8192 \<ge> m then (m + MAX_OP_SIZE + 1) mod 2 ^ 32 else 8192"
  let ?st = "\<lparr>out = ?hdr, outsize = ?osz, inscnt = 0, moff = 0, data = 0\<rparr>"
  from assms obtain bdf st where
    e: "encode_loop R T bdf m ?st = Inr st" and d: "d = flush st"
    and h: "length ?hdr \<le> ?osz"
    by (auto simp: diff_delta_def Let_def flush_def split: if_splits sum.splits)
  have "outsize ?st \<le> m + 8" by (simp add: MAX_OP_SIZE_eq)
  moreover have "length (out ?st) \<le> outsize ?st" using h by simp
  ultimately have "length (out st) \<le> m + 8"
    using e assms(2) by (intro encode_loop_within [of R T bdf m ?st]) simp_all
  then show ?thesis by (simp add: d length_flush MAX_OP_SIZE_eq)
qed


end
